theory Spec2Isabelle
  imports Complex_Main
begin

section \<open>Insertion-ordered dictionaries\<close>

text \<open>
  A Python \<open>dict\<close> keeps its keys in insertion order, and \<open>PersonTracker.update\<close>
  iterates over \<open>list(self.tracked_persons.keys())\<close>, so the order decides which of two
  equally near tracks wins. A dictionary is therefore an association list in insertion
  order. Assigning to a present key keeps its position, assigning to an absent key appends,
  \<open>del\<close> removes the entry, and reading an absent key is a \<open>KeyError\<close> (\<open>None\<close>).
\<close>

fun dict_set :: "('k \<times> 'v) list \<Rightarrow> 'k \<Rightarrow> 'v \<Rightarrow> ('k \<times> 'v) list" where
  "dict_set [] k v = [(k, v)]"
| "dict_set ((k', v') # d) k v =
     (if k' = k then (k, v) # d else (k', v') # dict_set d k v)"

definition dict_get :: "('k \<times> 'v) list \<Rightarrow> 'k \<Rightarrow> 'v option" where
  "dict_get d k = map_of d k"

definition dict_del :: "('k \<times> 'v) list \<Rightarrow> 'k \<Rightarrow> ('k \<times> 'v) list" where
  "dict_del d k = filter (\<lambda>kv. fst kv \<noteq> k) d"

definition dict_keys :: "('k \<times> 'v) list \<Rightarrow> 'k list" where
  "dict_keys d = map fst d"

section \<open>PersonTracker\<close>

text \<open>
  Centroids and boxes hold Python integers (\<open>update_frame\<close> converts every coordinate
  with \<open>int(...)\<close>). A box is \<open>(x, y, w, h)\<close>.
\<close>

type_synonym centroid = "int \<times> int"
type_synonym box = "int \<times> int \<times> int \<times> int"

record track =
  centroid :: centroid
  frames_missing :: int
  logged :: bool

record tracker =
  next_id :: int
  tracked_persons :: "(int \<times> track) list"
  max_distance :: real
  memory_frames :: int

text \<open>\<open>PersonTracker.__init__\<close>\<close>

definition PersonTracker :: "real \<Rightarrow> int \<Rightarrow> tracker" where
  "PersonTracker md mf =
     \<lparr>next_id = 1, tracked_persons = [], max_distance = md, memory_frames = mf\<rparr>"

text \<open>\<open>_register\<close>: the new track takes \<open>next_id\<close>, which is then incremented.\<close>

definition register :: "tracker \<Rightarrow> centroid \<Rightarrow> int \<times> tracker" where
  "register t c =
     (let person_id = next_id t in
      (person_id,
       t\<lparr>tracked_persons :=
            dict_set (tracked_persons t) person_id
              \<lparr>centroid = c, frames_missing = 0, logged = False\<rparr>,
         next_id := next_id t + 1\<rparr>))"

text \<open>
  \<open>_calculate_distance\<close>: the Euclidean distance. The source computes it in floating
  point (\<open>** 0.5\<close>); the model takes the exact real square root.
\<close>

definition calculate_distance :: "centroid \<Rightarrow> centroid \<Rightarrow> real" where
  "calculate_distance c1 c2 =
     sqrt (real_of_int ((fst c1 - fst c2)\<^sup>2 + (snd c1 - snd c2)\<^sup>2))"

text \<open>\<open>cx = x + w // 2\<close>, \<open>cy = y + h // 2\<close>; \<open>//\<close> is floor division, as \<open>div\<close> on \<open>int\<close>.\<close>

fun centroid_of :: "box \<Rightarrow> centroid" where
  "centroid_of (x, y, w, h) = (x + w div 2, y + h div 2)"

text \<open>
  The loop of the empty-input branch (lines 254 to 258): every key of the snapshot
  \<open>list(self.tracked_persons.keys())\<close> has its counter incremented and is deleted when the
  counter exceeds \<open>memory_frames\<close>.
\<close>

fun age_all :: "int list \<Rightarrow> tracker \<Rightarrow> tracker option" where
  "age_all [] t = Some t"
| "age_all (person_id # rest) t =
     (case dict_get (tracked_persons t) person_id of
        None \<Rightarrow> None
      | Some tr \<Rightarrow>
          (let tr' = tr\<lparr>frames_missing := frames_missing tr + 1\<rparr>;
               d = dict_set (tracked_persons t) person_id tr'
           in if frames_missing tr' > memory_frames t
              then age_all rest (t\<lparr>tracked_persons := dict_del d person_id\<rparr>)
              else age_all rest (t\<lparr>tracked_persons := d\<rparr>)))"

text \<open>The loop that registers every centroid when no track exists (lines 263 to 266).\<close>

fun register_all :: "centroid list \<Rightarrow> tracker \<Rightarrow> int list \<times> tracker" where
  "register_all [] t = ([], t)"
| "register_all (c # cs) t =
     (case register t c of
        (person_id, t') \<Rightarrow>
          (case register_all cs t' of (person_ids, t'') \<Rightarrow> (person_id # person_ids, t'')))"

text \<open>
  The inner loop (lines 277 to 289) over \<open>enumerate(tracked_ids)\<close> and
  \<open>tracked_centroids[i]\<close>: a running minimum that starts at \<open>float('inf')\<close> (\<open>None\<close>) with no
  best match, skips used tracks, and replaces the best match only by a strictly nearer
  track that is strictly nearer than \<open>max_distance\<close>.
\<close>

fun best_match ::
  "real \<Rightarrow> int set \<Rightarrow> centroid \<Rightarrow> (int \<times> centroid) list \<Rightarrow> real option \<Rightarrow> int option
     \<Rightarrow> int option" where
  "best_match md used c [] min_distance best_match_id = best_match_id"
| "best_match md used c ((tracked_id, tracked_centroid) # rest) min_distance best_match_id =
     (if tracked_id \<in> used then best_match md used c rest min_distance best_match_id
      else
        (let distance = calculate_distance c tracked_centroid in
         if (case min_distance of None \<Rightarrow> True | Some m \<Rightarrow> distance < m) \<and> distance < md
         then best_match md used c rest (Some distance) (Some tracked_id)
         else best_match md used c rest min_distance best_match_id))"

text \<open>
  The outer loop (lines 276 to 300): a matched track gets the new centroid and a zero
  counter and becomes used; an unmatched centroid registers a new track. The result is
  \<open>matched_ids\<close>, \<open>used_tracked_ids\<close> and the tracker.
\<close>

fun match_loop ::
  "(int \<times> centroid) list \<Rightarrow> centroid list \<Rightarrow> int set \<Rightarrow> tracker
     \<Rightarrow> (int list \<times> int set \<times> tracker) option" where
  "match_loop tracked [] used t = Some ([], used, t)"
| "match_loop tracked (c # cs) used t =
     (case best_match (max_distance t) used c tracked None None of
        Some best_match_id \<Rightarrow>
          (case dict_get (tracked_persons t) best_match_id of
             None \<Rightarrow> None
           | Some tr \<Rightarrow>
               (case match_loop tracked cs (insert best_match_id used)
                       (t\<lparr>tracked_persons :=
                            dict_set (tracked_persons t) best_match_id
                              (tr\<lparr>centroid := c, frames_missing := 0\<rparr>)\<rparr>) of
                  None \<Rightarrow> None
                | Some (ids, used', t') \<Rightarrow> Some (best_match_id # ids, used', t')))
      | None \<Rightarrow>
          (case register t c of
             (new_id, t1) \<Rightarrow>
               (case match_loop tracked cs used t1 of
                  None \<Rightarrow> None
                | Some (ids, used', t') \<Rightarrow> Some (new_id # ids, used', t'))))"

text \<open>
  The final loop (lines 303 to 308) over the snapshot \<open>tracked_ids\<close>: every track that
  was not matched has its counter incremented and is deleted when the counter exceeds
  \<open>memory_frames\<close>.
\<close>

fun age_unmatched :: "int list \<Rightarrow> int set \<Rightarrow> tracker \<Rightarrow> tracker option" where
  "age_unmatched [] used t = Some t"
| "age_unmatched (person_id # rest) used t =
     (if person_id \<notin> used then
        (case dict_get (tracked_persons t) person_id of
           None \<Rightarrow> None
         | Some tr \<Rightarrow>
             (let tr' = tr\<lparr>frames_missing := frames_missing tr + 1\<rparr>;
                  d = dict_set (tracked_persons t) person_id tr'
              in if frames_missing tr' > memory_frames t
                 then age_unmatched rest used (t\<lparr>tracked_persons := dict_del d person_id\<rparr>)
                 else age_unmatched rest used (t\<lparr>tracked_persons := d\<rparr>)))
      else age_unmatched rest used t)"

text \<open>
  \<open>PersonTracker.update\<close>. The result is \<open>None\<close> when a dictionary read raises
  \<open>KeyError\<close>, and otherwise the returned identities with the tracker after the call.
\<close>

definition update :: "tracker \<Rightarrow> box list \<Rightarrow> (int list \<times> tracker) option" where
  "update t detections =
     (let current_centroids = map centroid_of detections in
      if length current_centroids = 0 then
        (case age_all (dict_keys (tracked_persons t)) t of
           None \<Rightarrow> None
         | Some t' \<Rightarrow> Some ([], t'))
      else if length (tracked_persons t) = 0 then
        Some (register_all current_centroids t)
      else
        (let tracked_ids = dict_keys (tracked_persons t);
             tracked_centroids = map (\<lambda>kv. centroid (snd kv)) (tracked_persons t)
         in case match_loop (zip tracked_ids tracked_centroids) current_centroids {} t of
              None \<Rightarrow> None
            | Some (matched_ids, used, t1) \<Rightarrow>
                (case age_unmatched tracked_ids used t1 of
                   None \<Rightarrow> None
                 | Some t2 \<Rightarrow> Some (matched_ids, t2))))"

text \<open>\<open>mark_logged\<close>, \<open>is_logged\<close>, \<open>get_unique_count\<close> and \<open>reset\<close>.\<close>

definition mark_logged :: "tracker \<Rightarrow> int \<Rightarrow> tracker" where
  "mark_logged t person_id =
     (case dict_get (tracked_persons t) person_id of
        Some tr \<Rightarrow> t\<lparr>tracked_persons := dict_set (tracked_persons t) person_id (tr\<lparr>logged := True\<rparr>)\<rparr>
      | None \<Rightarrow> t)"

definition is_logged :: "tracker \<Rightarrow> int \<Rightarrow> bool" where
  "is_logged t person_id =
     (case dict_get (tracked_persons t) person_id of Some tr \<Rightarrow> logged tr | None \<Rightarrow> False)"

definition get_unique_count :: "tracker \<Rightarrow> nat" where
  "get_unique_count t = length (tracked_persons t)"

definition reset :: "tracker \<Rightarrow> tracker" where
  "reset t = t\<lparr>tracked_persons := [], next_id := 1\<rparr>"

section \<open>Configuration\<close>

text \<open>The module-level constants of \<open>06_roi_email_logging_ppe_detection.py\<close>.\<close>

definition ALERT_COOLDOWN :: real where "ALERT_COOLDOWN = 3"
definition EMAIL_COOLDOWN :: real where "EMAIL_COOLDOWN = 30"
definition CAMERA_ZONE_NAME :: string where "CAMERA_ZONE_NAME = ''Main Entrance''"
definition TRACKING_DISTANCE_THRESHOLD :: real where "TRACKING_DISTANCE_THRESHOLD = 50"
definition TRACKING_MEMORY_FRAMES :: int where "TRACKING_MEMORY_FRAMES = 30"
definition PERSON_TRACKING_ENABLED :: bool where "PERSON_TRACKING_ENABLED = True"
definition VIOLATION_MODE :: int where "VIOLATION_MODE = 1"

definition PPE_PROPER :: "string list" where
  "PPE_PROPER = [''helmet'', ''gloves'', ''vest'', ''boots'', ''goggles'']"

definition PPE_VIOLATIONS :: "string list" where
  "PPE_VIOLATIONS = [''no_helmet'', ''no_goggle'', ''no_gloves'', ''no_boots'', ''none'']"

definition PERSON_CLASS :: string where "PERSON_CLASS = ''Person''"

definition REQUIRED_PPE :: "string list" where
  "REQUIRED_PPE = [''helmet'', ''vest'']"

section \<open>Single-precision arithmetic\<close>

text \<open>
  The boxes reach \<open>check_violations\<close> as NumPy arrays of single-precision numbers
  (\<open>box.xyxy[0].cpu().numpy()\<close>), so the arithmetic of \<open>_check_proximity\<close> is the
  arithmetic of \<open>numpy.float32\<close> scalars: every difference, product and quotient is
  rounded to the nearest single-precision number, ties to the even significand. A result
  is a real number, an infinity or not-a-number. Signed zeros are not told apart: no
  operation of the program divides by a zero.
\<close>

datatype f32 = Finite real | PosInf | NegInf | NaN

text \<open>Rounding to the nearest integer, ties to the even one.\<close>

definition rne :: "real \<Rightarrow> int" where
  "rne q = (let f = \<lfloor>q\<rfloor>; r = q - of_int f
            in if r < 1 / 2 then f else if 1 / 2 < r then f + 1
               else if even f then f else f + 1)"

text \<open>
  The exponent of the binade of a number that is not negative, within the exponents of
  the normal single-precision numbers: \<open>binade n x\<close> is the largest \<open>e\<close> with
  \<open>- 126 < e\<close>, \<open>e \<le> n - 126\<close> and \<open>2 ^ e \<le> x\<close>, and \<open>- 126\<close> when there is none, the
  exponent that the subnormal numbers share with the smallest normal ones.
\<close>

fun binade :: "nat \<Rightarrow> real \<Rightarrow> int" where
  "binade 0 x = - 126"
| "binade (Suc n) x = (if 2 powi (int n - 125) \<le> x then int n - 125 else binade n x)"

text \<open>
  Rounding to single precision. The significand has 24 bits, so the numbers of the binade
  of exponent \<open>e\<close> are the multiples of \<open>2 ^ (e - 23)\<close>; the largest exponent is 127, and a
  rounded magnitude of \<open>2 ^ 128\<close> or more overflows to an infinity.
\<close>

definition fl32 :: "real \<Rightarrow> f32" where
  "fl32 x = (let u = 2 powi (binade 253 \<bar>x\<bar> - 23);
                 y = of_int (rne (x / u)) * u
             in if 2 ^ 128 \<le> y then PosInf
                else if y \<le> - (2 ^ 128) then NegInf
                else Finite y)"

text \<open>
  The operations of \<open>_check_proximity\<close>. The operands of a subtraction are coordinates,
  which are finite; products and quotients take what earlier operations returned.
\<close>

definition f32_sub :: "real \<Rightarrow> real \<Rightarrow> f32" where
  "f32_sub a b = fl32 (a - b)"

fun f32_mul :: "f32 \<Rightarrow> f32 \<Rightarrow> f32" where
  "f32_mul (Finite a) (Finite b) = fl32 (a * b)"
| "f32_mul (Finite a) PosInf = (if a = 0 then NaN else if 0 < a then PosInf else NegInf)"
| "f32_mul (Finite a) NegInf = (if a = 0 then NaN else if 0 < a then NegInf else PosInf)"
| "f32_mul PosInf (Finite b) = (if b = 0 then NaN else if 0 < b then PosInf else NegInf)"
| "f32_mul NegInf (Finite b) = (if b = 0 then NaN else if 0 < b then NegInf else PosInf)"
| "f32_mul PosInf PosInf = PosInf"
| "f32_mul PosInf NegInf = NegInf"
| "f32_mul NegInf PosInf = NegInf"
| "f32_mul NegInf NegInf = PosInf"
| "f32_mul NaN y = NaN"
| "f32_mul x NaN = NaN"

fun f32_div :: "f32 \<Rightarrow> f32 \<Rightarrow> f32" where
  "f32_div (Finite a) (Finite b) =
     (if b = 0 then (if a = 0 then NaN else if 0 < a then PosInf else NegInf)
      else fl32 (a / b))"
| "f32_div (Finite a) PosInf = Finite 0"
| "f32_div (Finite a) NegInf = Finite 0"
| "f32_div PosInf (Finite b) = (if 0 \<le> b then PosInf else NegInf)"
| "f32_div NegInf (Finite b) = (if 0 \<le> b then NegInf else PosInf)"
| "f32_div PosInf PosInf = NaN"
| "f32_div PosInf NegInf = NaN"
| "f32_div NegInf PosInf = NaN"
| "f32_div NegInf NegInf = NaN"
| "f32_div NaN y = NaN"
| "f32_div x NaN = NaN"

text \<open>\<open>x > 0\<close>: a comparison with not-a-number is false.\<close>

fun f32_positive :: "f32 \<Rightarrow> bool" where
  "f32_positive (Finite a) = (0 < a)"
| "f32_positive PosInf = True"
| "f32_positive NegInf = False"
| "f32_positive NaN = False"

text \<open>
  The comparison \<open>overlap_ratio > threshold\<close> of a single-precision scalar with a Python
  float, which is a double-precision number, depends on the installed NumPy. Before
  NumPy 2 both operands are converted to double precision; every single-precision number
  is a double-precision number, so the two values are compared as they are. From NumPy 2
  on (NEP 50) the Python float is rounded to single precision first.
\<close>

datatype promotion = Legacy | Nep50

fun f32_gt :: "promotion \<Rightarrow> f32 \<Rightarrow> real \<Rightarrow> bool" where
  "f32_gt np NaN t = False"
| "f32_gt np PosInf t = True"
| "f32_gt np NegInf t = False"
| "f32_gt Legacy (Finite r) t = (t < r)"
| "f32_gt Nep50 (Finite r) t =
     (case fl32 t of
        Finite t' \<Rightarrow> t' < r
      | PosInf \<Rightarrow> False
      | NegInf \<Rightarrow> True
      | NaN \<Rightarrow> False)"

section \<open>Compliance evaluation\<close>

text \<open>
  A detection as \<open>check_violations\<close> collects it from the detector's boxes: class name,
  confidence and the box \<open>(x1, y1, x2, y2)\<close>. The coordinates are single-precision
  numbers; the model holds their values, which are real numbers, and rounds what
  \<open>_check_proximity\<close> computes from them.
\<close>

type_synonym bbox = "real \<times> real \<times> real \<times> real"

record detection =
  class_name :: string
  confidence :: real
  bbox :: bbox

record violation_result =
  has_violation :: bool
  violation_message :: "string option"
  ppe_status :: "(string \<times> bool) list"
  person_confidence :: real
  person_bbox :: bbox

text \<open>
  \<open>_check_proximity\<close>: the intersection area over the area of the first box (the
  person), compared with the threshold. The two maxima and minima select coordinates and
  round nothing. In \<open>inter_area / bbox1_area if bbox1_area > 0 else 0\<close> the alternative
  is the integer \<open>0\<close>, which is below every threshold that is not negative under both
  comparison rules. The first argument is the comparison rule of the installed NumPy.
\<close>

fun check_proximity :: "promotion \<Rightarrow> bbox \<Rightarrow> bbox \<Rightarrow> real \<Rightarrow> bool" where
  "check_proximity np (x1_min, y1_min, x1_max, y1_max) (x2_min, y2_min, x2_max, y2_max) threshold =
     (let x_inter_min = max x1_min x2_min;
          y_inter_min = max y1_min y2_min;
          x_inter_max = min x1_max x2_max;
          y_inter_max = min y1_max y2_max
      in if x_inter_max < x_inter_min \<or> y_inter_max < y_inter_min then False
         else
           (let inter_area = f32_mul (f32_sub x_inter_max x_inter_min)
                                     (f32_sub y_inter_max y_inter_min);
                bbox1_area = f32_mul (f32_sub x1_max x1_min) (f32_sub y1_max y1_min);
                overlap_ratio = (if f32_positive bbox1_area then f32_div inter_area bbox1_area
                                 else Finite 0)
            in f32_gt np overlap_ratio threshold))"

text \<open>
  Every caller leaves the threshold at its default, the literal \<open>0.3\<close>. Python holds it
  as the double-precision number nearest to three tenths, which is
  \<open>5404319552844595 / 2 ^ 54\<close>, a little below three tenths.
\<close>

definition default_threshold :: real where
  "default_threshold = 5404319552844595 / 2 ^ 54"

text \<open>Python's truth value of an optional string: \<open>None\<close> and \<open>''\<close> are false.\<close>

fun truthy :: "string option \<Rightarrow> bool" where
  "truthy None = False"
| "truthy (Some s) = (s \<noteq> [])"

text \<open>\<open>sep.join(xs)\<close>\<close>

fun str_join :: "string \<Rightarrow> string list \<Rightarrow> string" where
  "str_join sep [] = []"
| "str_join sep [x] = x"
| "str_join sep (x # y # ys) = x @ sep @ str_join sep (y # ys)"

text \<open>\<open>ppe_status.get(ppe, False)\<close>\<close>

definition status_get :: "(string \<times> bool) list \<Rightarrow> string \<Rightarrow> bool" where
  "status_get st ppe = (case dict_get st ppe of Some b \<Rightarrow> b | None \<Rightarrow> False)"

text \<open>
  Lines 841 to 848: for every proper item (the outer loop) and every detection of that
  class (the inner loop), a detection near the person sets the item's flag. The first
  argument of the functions of this section is the comparison rule, handed down to
  \<open>_check_proximity\<close>.
\<close>

fun ppe_inner ::
  "promotion \<Rightarrow> bbox \<Rightarrow> string \<Rightarrow> detection list \<Rightarrow> (string \<times> bool) list \<Rightarrow> (string \<times> bool) list" where
  "ppe_inner np pb ppe_item [] st = st"
| "ppe_inner np pb ppe_item (det # dets) st =
     (if class_name det = ppe_item then
        (if check_proximity np pb (bbox det) default_threshold
         then ppe_inner np pb ppe_item dets (dict_set st ppe_item True)
         else ppe_inner np pb ppe_item dets st)
      else ppe_inner np pb ppe_item dets st)"

fun ppe_outer ::
  "promotion \<Rightarrow> bbox \<Rightarrow> string list \<Rightarrow> detection list \<Rightarrow> (string \<times> bool) list \<Rightarrow> (string \<times> bool) list" where
  "ppe_outer np pb [] dets st = st"
| "ppe_outer np pb (ppe_item # items) dets st =
     (if ppe_item = ''Person'' then ppe_outer np pb items dets st
      else ppe_outer np pb items dets (ppe_inner np pb ppe_item dets st))"

text \<open>
  Lines 851 to 859: the inner loop stops at the first detection of the violation class
  near the person; the outer loop stops as soon as \<open>violation_detected\<close> is true.
\<close>

fun violation_inner ::
  "promotion \<Rightarrow> bbox \<Rightarrow> string \<Rightarrow> detection list \<Rightarrow> string option \<Rightarrow> string option" where
  "violation_inner np pb violation [] violation_detected = violation_detected"
| "violation_inner np pb violation (det # dets) violation_detected =
     (if class_name det = violation then
        (if check_proximity np pb (bbox det) default_threshold then Some violation
         else violation_inner np pb violation dets violation_detected)
      else violation_inner np pb violation dets violation_detected)"

fun violation_outer ::
  "promotion \<Rightarrow> bbox \<Rightarrow> string list \<Rightarrow> detection list \<Rightarrow> string option \<Rightarrow> string option" where
  "violation_outer np pb [] dets violation_detected = violation_detected"
| "violation_outer np pb (violation # rest) dets violation_detected =
     (let violation_detected' = violation_inner np pb violation dets violation_detected
      in if truthy violation_detected' then violation_detected'
         else violation_outer np pb rest dets violation_detected')"

text \<open>
  The body of the loop over \<open>person_detections\<close> (lines 827 to 892). The first component
  of \<open>verdict\<close> is \<open>is_compliant\<close>, the second \<open>violation_message\<close>; the test
  \<open>if violation_detected:\<close> holds for a string that is not empty.
\<close>

definition evaluate_person :: "promotion \<Rightarrow> int \<Rightarrow> detection list \<Rightarrow> detection \<Rightarrow> violation_result" where
  "evaluate_person np mode detection_data person_det =
     (let pb = bbox person_det;
          ppe_status0 = [(''helmet'', False), (''vest'', False), (''gloves'', False),
                         (''boots'', False), (''goggles'', False)];
          st = ppe_outer np pb PPE_PROPER detection_data ppe_status0;
          violation_detected = violation_outer np pb PPE_VIOLATIONS detection_data None;
          missing_ppe = filter (\<lambda>ppe. \<not> status_get st ppe) PPE_PROPER;
          missing_required = filter (\<lambda>ppe. \<not> status_get st ppe) REQUIRED_PPE;
          mode1_missing =
            (if missing_ppe \<noteq> []
             then (False, Some (''Missing PPE: '' @ str_join '', '' missing_ppe))
             else (True, None));
          mode2_missing =
            (if missing_required \<noteq> []
             then (False, Some (''Missing required PPE: '' @ str_join '', '' missing_required))
             else (True, None));
          verdict =
            (if mode = 1 then
               (case violation_detected of
                  Some v \<Rightarrow>
                    if v \<noteq> [] then (False, Some (''Violation detected: '' @ v))
                    else mode1_missing
                | None \<Rightarrow> mode1_missing)
             else
               (case violation_detected of
                  Some v \<Rightarrow>
                    if v \<noteq> [] \<and> v \<in> set (map (\<lambda>ppe. ''no_'' @ ppe) REQUIRED_PPE)
                    then (False, Some (''Required PPE violation: '' @ v))
                    else mode2_missing
                | None \<Rightarrow> mode2_missing))
      in \<lparr>has_violation = \<not> fst verdict,
          violation_message = snd verdict,
          ppe_status = st,
          person_confidence = confidence person_det,
          person_bbox = pb\<rparr>)"

text \<open>\<open>check_violations\<close>: one result for every detection of class \<open>Person\<close>, in order.\<close>

definition person_detections :: "detection list \<Rightarrow> detection list" where
  "person_detections detection_data = filter (\<lambda>d. class_name d = PERSON_CLASS) detection_data"

definition check_violations :: "promotion \<Rightarrow> int \<Rightarrow> detection list \<Rightarrow> violation_result list" where
  "check_violations np mode detection_data =
     map (evaluate_person np mode detection_data) (person_detections detection_data)"

section \<open>Persistence\<close>

text \<open>
  The three tables of \<open>Database\<close>. The timestamp and image-path columns come from the
  clock and the file system and are left out of the rows, and with them the writing of the
  image file by \<open>save_violation_image\<close>. A call whose \<open>sqlite3\<close>
  operations raise (the storage is unavailable or the write fails) returns the error and
  leaves the tables as they were: nothing is committed. Whether a call fails is the
  environment's choice, the parameter \<open>fails\<close>.
\<close>

datatype error = KeyError | StorageError

record violation_row =
  v_zone_name :: string
  v_violation_type :: "string option"
  v_person_id :: int
  v_confidence :: real

record detection_row =
  d_zone_name :: string
  d_person_id :: int
  d_has_helmet :: bool
  d_has_vest :: bool
  d_has_gloves :: bool
  d_has_boots :: bool
  d_has_goggles :: bool
  d_is_compliant :: bool

record stats_row =
  total_people :: int
  compliant_people :: int
  violation_people :: int
  compliance_rate :: real

record database =
  violations :: "violation_row list"
  detections :: "detection_row list"
  daily_stats :: "((string \<times> string) \<times> stats_row) list"

definition log_violation ::
  "database \<Rightarrow> bool \<Rightarrow> string \<Rightarrow> string option \<Rightarrow> int \<Rightarrow> real \<Rightarrow> error + database" where
  "log_violation d fails zone_name violation_type person_id conf =
     (if fails then Inl StorageError
      else Inr (d\<lparr>violations := violations d @
                  [\<lparr>v_zone_name = zone_name, v_violation_type = violation_type,
                    v_person_id = person_id, v_confidence = conf\<rparr>]\<rparr>))"

definition log_detection ::
  "database \<Rightarrow> bool \<Rightarrow> string \<Rightarrow> int \<Rightarrow> (string \<times> bool) list \<Rightarrow> bool \<Rightarrow> error + database" where
  "log_detection d fails zone_name person_id st is_compliant =
     (if fails then Inl StorageError
      else Inr (d\<lparr>detections := detections d @
                  [\<lparr>d_zone_name = zone_name, d_person_id = person_id,
                    d_has_helmet = status_get st ''helmet'',
                    d_has_vest = status_get st ''vest'',
                    d_has_gloves = status_get st ''gloves'',
                    d_has_boots = status_get st ''boots'',
                    d_has_goggles = status_get st ''goggles'',
                    d_is_compliant = is_compliant\<rparr>]\<rparr>))"

text \<open>
  \<open>update_daily_stats\<close>: \<open>INSERT OR REPLACE\<close> under \<open>UNIQUE(date, zone_name)\<close> removes the
  row of the key and inserts the new one.
\<close>

definition update_daily_stats ::
  "database \<Rightarrow> bool \<Rightarrow> string \<Rightarrow> string \<Rightarrow> int \<Rightarrow> int \<Rightarrow> int \<Rightarrow> error + database" where
  "update_daily_stats d fails today zone_name n_total n_compliant n_violation =
     (if fails then Inl StorageError
      else
        (let rate = (if n_total > 0
                     then real_of_int n_compliant / real_of_int n_total * 100 else 0)
         in Inr (d\<lparr>daily_stats := dict_del (daily_stats d) (today, zone_name) @
                     [((today, zone_name),
                       \<lparr>total_people = n_total, compliant_people = n_compliant,
                        violation_people = n_violation, compliance_rate = rate\<rparr>)]\<rparr>)))"

section \<open>The application state\<close>

text \<open>
  The fields of \<open>PPEDetectionApp\<close> that the pipeline reads and writes. Times are seconds
  on the clock of \<open>get_local_now\<close>; a frame is named by its number. The widgets are
  reduced to what the pipeline reads from them (the e-mail check box) or appends to them
  (the alert log); status texts and the statistics labels are display only and left out.
  \<open>audio_plays\<close> counts the calls of \<open>mixer.music.play\<close> (a failure there is caught and
  printed), \<open>email_jobs\<close> is the queue of jobs submitted to the notifier's thread pool.
\<close>

datatype log_entry = AlertLine real "string option" | EmailLine real

record email_job =
  job_time :: real
  job_message :: "string option"
  job_frame :: nat

record app =
  person_tracker :: "tracker option"
  logged_person_ids :: "int set"
  session_total_people :: int
  session_compliant :: int
  session_violations :: int
  db :: database
  last_alert_time :: "real option"
  last_email_time :: "real option"
  violation_mode :: int
  audio_enabled :: bool
  email_enabled_checkbox :: bool
  email_notifier_enabled :: bool
  current_frame :: "nat option"
  frame_count :: nat
  alert_log :: "log_entry list"
  audio_plays :: nat
  email_jobs :: "email_job list"

section \<open>Alerts\<close>

text \<open>\<open>EmailNotifier.send_email_async\<close>: nothing is submitted when the notifier is disabled.\<close>

definition send_email_async :: "app \<Rightarrow> email_job \<Rightarrow> app" where
  "send_email_async s job =
     (if \<not> email_notifier_enabled s then s
      else s\<lparr>email_jobs := email_jobs s @ [job]\<rparr>)"

text \<open>\<open>send_email_notification\<close>; \<open>now\<close> is what its call of \<open>get_local_now\<close> returns.\<close>

definition send_email_notification :: "app \<Rightarrow> string option \<Rightarrow> real \<Rightarrow> app" where
  "send_email_notification s message now =
     (if \<not> email_enabled_checkbox s then s
      else if (case last_email_time s of
                 Some last_time \<Rightarrow> now - last_time < EMAIL_COOLDOWN
               | None \<Rightarrow> False) then s
      else
        (let s1 = s\<lparr>last_email_time := Some now\<rparr>
         in case current_frame s1 of
              Some frame \<Rightarrow>
                (let s2 = send_email_async s1
                            \<lparr>job_time = now, job_message = message, job_frame = frame\<rparr>
                 in s2\<lparr>alert_log := alert_log s2 @ [EmailLine now]\<rparr>)
            | None \<Rightarrow> s1))"

text \<open>
  \<open>trigger_alert\<close>; \<open>now\<close> is what its own call of \<open>get_local_now\<close> returns and
  \<open>now_email\<close> what the later call inside \<open>send_email_notification\<close> returns.
\<close>

definition trigger_alert :: "app \<Rightarrow> string option \<Rightarrow> real \<Rightarrow> real \<Rightarrow> app" where
  "trigger_alert s message now now_email =
     (if (case last_alert_time s of
            Some last_time \<Rightarrow> now - last_time < ALERT_COOLDOWN
          | None \<Rightarrow> False) then s
      else
        (let s1 = s\<lparr>last_alert_time := Some now,
                    alert_log := alert_log s @ [AlertLine now message]\<rparr>;
             s2 = (if audio_enabled s1 then s1\<lparr>audio_plays := audio_plays s1 + 1\<rparr> else s1)
         in send_email_notification s2 message now_email))"

section \<open>Sessions and frames\<close>

text \<open>
  \<open>start_detection\<close>: when the video source opens, the session counters and the set of
  logged identities are cleared and the tracker is reset. The cooldown times and the
  database are left as they are.
\<close>

definition start_detection :: "app \<Rightarrow> bool \<Rightarrow> app" where
  "start_detection s opened =
     (if \<not> opened then s
      else s\<lparr>session_total_people := 0,
             session_compliant := 0,
             session_violations := 0,
             logged_person_ids := {},
             person_tracker := map_option reset (person_tracker s)\<rparr>)"

text \<open>
  \<open>stop_detection\<close>: the daily statistics are written when somebody was counted. The
  result is the error that leaves the function, if any, and the state at that point.
\<close>

definition stop_detection :: "app \<Rightarrow> string \<Rightarrow> bool \<Rightarrow> error option \<times> app" where
  "stop_detection s today fails =
     (if session_total_people s > 0 then
        (case update_daily_stats (db s) fails today CAMERA_ZONE_NAME
                (session_total_people s) (session_compliant s) (session_violations s) of
           Inl e \<Rightarrow> (Some e, s)
         | Inr d \<Rightarrow> (None, s\<lparr>db := d\<rparr>))
      else (None, s))"

text \<open>
  What one call of \<open>update_frame\<close> takes from outside: whether a frame was read, whether
  the detection frame is not empty, the detector's result, which database calls fail
  (by the index of the person in the frame and the kind of call), what the clock returns to
  \<open>trigger_alert\<close> and to \<open>send_email_notification\<close> for that person, the date, and
  the comparison rule of the installed NumPy.
\<close>

datatype db_call = LogViolation | LogDetection

record frame_env =
  ret :: bool
  frame_nonempty :: bool
  frame_detections :: "detection list"
  storage_fails :: "nat \<Rightarrow> db_call \<Rightarrow> bool"
  alert_clock :: "nat \<Rightarrow> real"
  email_clock :: "nat \<Rightarrow> real"
  today :: string
  stats_fails :: bool
  scalar_promotion :: promotion

text \<open>Python's \<open>int(x)\<close> on a float truncates towards zero.\<close>

definition py_int :: "real \<Rightarrow> int" where
  "py_int r = (if 0 \<le> r then \<lfloor>r\<rfloor> else \<lceil>r\<rceil>)"

text \<open>Lines 1079 to 1087: the person boxes as \<open>(x, y, w, h)\<close>.\<close>

fun to_xywh :: "bbox \<Rightarrow> box" where
  "to_xywh (x1, y1, x2, y2) = (py_int x1, py_int y1, py_int (x2 - x1), py_int (y2 - y1))"

text \<open>
  Lines 1090 to 1095: the tracker names the persons when there is a tracker and a person;
  otherwise the identities are \<open>range(len(person_bboxes))\<close>. \<open>None\<close> is a \<open>KeyError\<close>
  inside the tracker.
\<close>

definition assign_person_ids ::
  "tracker option \<Rightarrow> box list \<Rightarrow> (int list \<times> tracker option) option" where
  "assign_person_ids trk person_bboxes =
     (case trk of
        Some t \<Rightarrow>
          if length person_bboxes > 0 then
            (case update t person_bboxes of
               None \<Rightarrow> None
             | Some (person_ids, t') \<Rightarrow> Some (person_ids, Some t'))
          else Some (map int [0..<length person_bboxes], trk)
      | None \<Rightarrow> Some (map int [0..<length person_bboxes], trk))"

text \<open>Lines 1139 to 1144: the detection record of a person.\<close>

definition write_detection :: "app \<Rightarrow> bool \<Rightarrow> int \<Rightarrow> violation_result \<Rightarrow> error option \<times> app" where
  "write_detection s fails person_id v_result =
     (case log_detection (db s) fails CAMERA_ZONE_NAME person_id (ppe_status v_result)
             (\<not> has_violation v_result) of
        Inl e \<Rightarrow> (Some e, s)
      | Inr d \<Rightarrow> (None, s\<lparr>db := d\<rparr>))"

text \<open>
  The body of the loop over \<open>enumerate(violation_results)\<close> (lines 1111 to 1147). The
  result is the error that leaves the body, if any, and the state at that point: what the
  body assigned before a failing call stays assigned.
\<close>

definition process_person ::
  "frame_env \<Rightarrow> int list \<Rightarrow> app \<Rightarrow> nat \<Rightarrow> violation_result \<Rightarrow> error option \<times> app" where
  "process_person env person_ids s i v_result =
     (let person_id = (if i < length person_ids then person_ids ! i else int i) in
      if person_id \<notin> logged_person_ids s then
        (let s1 = s\<lparr>logged_person_ids := insert person_id (logged_person_ids s),
                    session_total_people := session_total_people s + 1\<rparr>
         in if has_violation v_result then
              (let s2 = s1\<lparr>session_violations := session_violations s1 + 1\<rparr>
               in case log_violation (db s2) (storage_fails env i LogViolation)
                         CAMERA_ZONE_NAME (violation_message v_result) person_id
                         (person_confidence v_result) of
                    Inl e \<Rightarrow> (Some e, s2)
                  | Inr d \<Rightarrow>
                      (let s3 = trigger_alert (s2\<lparr>db := d\<rparr>) (violation_message v_result)
                                  (alert_clock env i) (email_clock env i)
                       in write_detection s3 (storage_fails env i LogDetection)
                            person_id v_result))
            else
              (let s2 = s1\<lparr>session_compliant := session_compliant s1 + 1\<rparr>
               in write_detection s2 (storage_fails env i LogDetection) person_id v_result))
      else (None, s))"

text \<open>The loop itself, from index \<open>i\<close> on; an error ends it.\<close>

fun process_loop ::
  "frame_env \<Rightarrow> int list \<Rightarrow> app \<Rightarrow> nat \<Rightarrow> violation_result list \<Rightarrow> error option \<times> app" where
  "process_loop env person_ids s i [] = (None, s)"
| "process_loop env person_ids s i (v_result # rest) =
     (case process_person env person_ids s i v_result of
        (Some e, s') \<Rightarrow> (Some e, s')
      | (None, s') \<Rightarrow> process_loop env person_ids s' (Suc i) rest)"

text \<open>
  \<open>update_frame\<close>, without the resizing, drawing and display of the frame. The result is
  the error that leaves the function, if any, and the state at that point.
\<close>

definition frame_results :: "app \<Rightarrow> frame_env \<Rightarrow> violation_result list" where
  "frame_results s env =
     check_violations (scalar_promotion env) (violation_mode s) (frame_detections env)"

definition frame_tracking :: "app \<Rightarrow> frame_env \<Rightarrow> (int list \<times> tracker option) option" where
  "frame_tracking s env =
     assign_person_ids (person_tracker s) (map (\<lambda>v. to_xywh (person_bbox v)) (frame_results s env))"

definition update_frame :: "app \<Rightarrow> frame_env \<Rightarrow> error option \<times> app" where
  "update_frame s env =
     (if \<not> ret env then stop_detection s (today env) (stats_fails env)
      else
        (let s0 = s\<lparr>frame_count := frame_count s + 1\<rparr> in
         if frame_nonempty env then
           (case frame_tracking s0 env of
              None \<Rightarrow> (Some KeyError, s0)
            | Some (person_ids, trk) \<Rightarrow>
                process_loop env person_ids
                  (s0\<lparr>person_tracker := trk, current_frame := Some (frame_count s0)\<rparr>)
                  0 (frame_results s0 env))
         else (None, s0)))"

text \<open>
  A session is a sequence of calls of \<open>update_frame\<close> by the timer, each on the state the
  call before left, whether it returned or raised.
\<close>

fun run_frames :: "app \<Rightarrow> frame_env list \<Rightarrow> app" where
  "run_frames s [] = s"
| "run_frames s (env # envs) = run_frames (snd (update_frame s env)) envs"

text \<open>
  \<open>PPEDetectionApp.__init__\<close>: the state of a new application over the database file it
  finds, with the audio mixer and the e-mail notifier available or not. The e-mail check box
  starts checked exactly when the notifier validated its credentials.
\<close>

definition empty_database :: database where
  "empty_database = \<lparr>violations = [], detections = [], daily_stats = []\<rparr>"

definition PPEDetectionApp :: "database \<Rightarrow> bool \<Rightarrow> bool \<Rightarrow> app" where
  "PPEDetectionApp d audio email =
     \<lparr>person_tracker =
        (if PERSON_TRACKING_ENABLED
         then Some (PersonTracker TRACKING_DISTANCE_THRESHOLD TRACKING_MEMORY_FRAMES)
         else None),
      logged_person_ids = {},
      session_total_people = 0,
      session_compliant = 0,
      session_violations = 0,
      db = d,
      last_alert_time = None,
      last_email_time = None,
      violation_mode = VIOLATION_MODE,
      audio_enabled = audio,
      email_enabled_checkbox = email,
      email_notifier_enabled = email,
      current_frame = None,
      frame_count = 0,
      alert_log = [],
      audio_plays = 0,
      email_jobs = []\<rparr>"

section \<open>Notions used by the properties\<close>

subsection \<open>Overlap ratio\<close>

text \<open>
  The intersection area of two boxes and the area of a box, as the specification uses the
  words: the intersection of two boxes that do not meet has area zero.
\<close>

fun inter_area :: "bbox \<Rightarrow> bbox \<Rightarrow> real" where
  "inter_area (a1, b1, a2, b2) (c1, d1, c2, d2) =
     max 0 (min a2 c2 - max a1 c1) * max 0 (min b2 d2 - max b1 d1)"

fun bbox_area :: "bbox \<Rightarrow> real" where
  "bbox_area (x1, y1, x2, y2) = (x2 - x1) * (y2 - y1)"

text \<open>
  The sides of a box and of an intersection are pixel-sized when each of them that is
  positive lies between \<open>2 ^ - 20\<close> and \<open>2 ^ 20\<close>, far inside the range of the normal
  single-precision numbers.
\<close>

definition pixel_sized :: "real \<Rightarrow> bool" where
  "pixel_sized v \<longleftrightarrow> v \<le> 0 \<or> (1 / 2 ^ 20 \<le> v \<and> v \<le> 2 ^ 20)"

fun pixel_boxes :: "bbox \<Rightarrow> bbox \<Rightarrow> bool" where
  "pixel_boxes (a1, b1, a2, b2) (c1, d1, c2, d2) =
     (pixel_sized (a2 - a1) \<and> pixel_sized (b2 - b1)
      \<and> pixel_sized (min a2 c2 - max a1 c1) \<and> pixel_sized (min b2 d2 - max b1 d1))"

text \<open>
  \<open>near k x y\<close>: \<open>y\<close> comes from \<open>x\<close> by at most \<open>k\<close> roundings, each of relative error at
  most \<open>2 ^ - 24\<close>.
\<close>

definition near :: "nat \<Rightarrow> real \<Rightarrow> real \<Rightarrow> bool" where
  "near k x y \<longleftrightarrow> x * (1 - 1 / 2 ^ 24) ^ k \<le> y \<and> y \<le> x * (1 + 1 / 2 ^ 24) ^ k"

text \<open>A box is degenerate when it has no area or its corners are out of order.\<close>

fun degenerate :: "bbox \<Rightarrow> bool" where
  "degenerate (x1, y1, x2, y2) = (x2 \<le> x1 \<or> y2 \<le> y1)"

text \<open>A class is associated with a person box when a detection of the class is near it.\<close>

definition associated :: "promotion \<Rightarrow> detection list \<Rightarrow> bbox \<Rightarrow> string \<Rightarrow> bool" where
  "associated np dets pb c =
     (\<exists>d \<in> set dets. class_name d = c \<and> check_proximity np pb (bbox d) default_threshold)"

subsection \<open>Cooldowns\<close>

text \<open>
  A channel is suppressed at a time when it has fired and less than its cooldown has
  passed since. The alerts fired are the alert lines of the log.
\<close>

definition alert_suppressed :: "app \<Rightarrow> real \<Rightarrow> bool" where
  "alert_suppressed s now =
     (case last_alert_time s of
        Some last_time \<Rightarrow> now - last_time < ALERT_COOLDOWN
      | None \<Rightarrow> False)"

definition email_suppressed :: "app \<Rightarrow> real \<Rightarrow> bool" where
  "email_suppressed s now =
     (case last_email_time s of
        Some last_time \<Rightarrow> now - last_time < EMAIL_COOLDOWN
      | None \<Rightarrow> False)"

fun is_alert_line :: "log_entry \<Rightarrow> bool" where
  "is_alert_line (AlertLine t m) = True"
| "is_alert_line (EmailLine t) = False"

definition alerts_fired :: "app \<Rightarrow> nat" where
  "alerts_fired s = length (filter is_alert_line (alert_log s))"

text \<open>
  The state of a new application with sound and e-mail available that holds frame 1 and
  has called \<open>trigger_alert\<close> at second 0 and at second 29.
\<close>

definition alerted_at_0_and_29 :: app where
  "alerted_at_0_and_29 =
     trigger_alert
       (trigger_alert ((PPEDetectionApp empty_database True True)\<lparr>current_frame := Some 1\<rparr>)
          (Some ''Violation detected: no_helmet'') 0 0)
       (Some ''Violation detected: no_helmet'') 29 29"

subsection \<open>The session ledger\<close>

text \<open>The identity that the loop of \<open>update_frame\<close> gives the person at index \<open>i\<close>.\<close>

definition person_id_at :: "int list \<Rightarrow> nat \<Rightarrow> int" where
  "person_id_at person_ids i = (if i < length person_ids then person_ids ! i else int i)"

text \<open>
  The ledger is consistent when the total is the sum of the two other counters and the
  number of logged identities.
\<close>

definition ledger_inv :: "app \<Rightarrow> bool" where
  "ledger_inv s \<longleftrightarrow>
     finite (logged_person_ids s)
     \<and> session_total_people s = session_compliant s + session_violations s
     \<and> session_total_people s = int (card (logged_person_ids s))"

text \<open>
  The identities that the tracker returns for a frame, and for the frames of a session
  that starts in state \<open>s\<close>.
\<close>

definition frame_ids :: "app \<Rightarrow> frame_env \<Rightarrow> int set" where
  "frame_ids s env =
     (if ret env \<and> frame_nonempty env then
        (case frame_tracking s env of
           Some (person_ids, trk) \<Rightarrow> set person_ids
         | None \<Rightarrow> {})
      else {})"

fun produced_ids :: "app \<Rightarrow> frame_env list \<Rightarrow> int set" where
  "produced_ids s [] = {}"
| "produced_ids s (env # envs) =
     frame_ids s env \<union> produced_ids (snd (update_frame s env)) envs"

text \<open>The rows that were written to the two tables between state \<open>s0\<close> and state \<open>s\<close>.\<close>

definition detections_since :: "app \<Rightarrow> app \<Rightarrow> detection_row list" where
  "detections_since s0 s = drop (length (detections (db s0))) (detections (db s))"

definition violations_since :: "app \<Rightarrow> app \<Rightarrow> violation_row list" where
  "violations_since s0 s = drop (length (violations (db s0))) (violations (db s))"

text \<open>The part of the state that the alert functions write.\<close>

definition alert_state ::
  "app \<Rightarrow> real option \<times> real option \<times> log_entry list \<times> nat \<times> email_job list" where
  "alert_state s =
     (last_alert_time s, last_email_time s, alert_log s, audio_plays s, email_jobs s)"

text \<open>
  Every identity has at most one row among the rows that were written to each table
  between state \<open>s0\<close> and state \<open>s\<close>, and every such row is of a logged identity.
\<close>

definition rows_logged_once :: "app \<Rightarrow> app \<Rightarrow> bool" where
  "rows_logged_once s0 s \<longleftrightarrow>
     length (detections (db s0)) \<le> length (detections (db s))
     \<and> length (violations (db s0)) \<le> length (violations (db s))
     \<and> distinct (map d_person_id (detections_since s0 s))
     \<and> set (map d_person_id (detections_since s0 s)) \<subseteq> logged_person_ids s
     \<and> distinct (map v_person_id (violations_since s0 s))
     \<and> set (map v_person_id (violations_since s0 s)) \<subseteq> logged_person_ids s"

subsection \<open>Concrete frames\<close>

text \<open>
  A frame that was read and is not empty, with the given detections; every clock reading
  during the frame is \<open>now\<close>, and every database call of the frame fails or none does.
  The comparison rule is that of NumPy 2.
\<close>

definition frame_of :: "detection list \<Rightarrow> bool \<Rightarrow> real \<Rightarrow> frame_env" where
  "frame_of dets fails now =
     \<lparr>ret = True, frame_nonempty = True, frame_detections = dets,
      storage_fails = (\<lambda>i c. fails), alert_clock = (\<lambda>i. now), email_clock = (\<lambda>i. now),
      today = ''2024-01-01'', stats_fails = fails, scalar_promotion = Nep50\<rparr>"

text \<open>A frame with one person without any equipment, and a frame with two of them.\<close>

definition bare_person :: "detection list" where
  "bare_person = [\<lparr>class_name = ''Person'', confidence = 9 / 10, bbox = (0, 0, 100, 200)\<rparr>]"

definition two_persons :: "detection list" where
  "two_persons =
     [\<lparr>class_name = ''Person'', confidence = 9 / 10, bbox = (0, 0, 100, 200)\<rparr>,
      \<lparr>class_name = ''Person'', confidence = 8 / 10, bbox = (300, 0, 400, 200)\<rparr>]"

text \<open>
  A frame with one person and detections of two violation classes near the person, the
  class \<open>none\<close> first.
\<close>

definition two_violation_classes :: "detection list" where
  "two_violation_classes =
     [\<lparr>class_name = ''Person'', confidence = 9 / 10, bbox = (0, 0, 100, 200)\<rparr>,
      \<lparr>class_name = ''none'', confidence = 8 / 10, bbox = (0, 0, 100, 200)\<rparr>,
      \<lparr>class_name = ''no_helmet'', confidence = 7 / 10, bbox = (10, 10, 90, 160)\<rparr>]"

subsection \<open>The tracker\<close>

text \<open>
  A tracker is well formed when its dictionary has no key twice and every key is below
  \<open>next_id\<close>. A new tracker is well formed, and \<open>update\<close>, \<open>reset\<close> and \<open>mark_logged\<close>
  keep a tracker well formed.
\<close>

definition tracker_inv :: "tracker \<Rightarrow> bool" where
  "tracker_inv t \<longleftrightarrow>
     distinct (dict_keys (tracked_persons t))
     \<and> (\<forall>k \<in> set (dict_keys (tracked_persons t)). k < next_id t)"

text \<open>
  The operations on a tracker, and the identities that a sequence of operations assigns
  to new tracks, in order: the identities returned by \<open>update\<close> that name no track of the
  tracker before the call. \<open>None\<close> means that a call raised.
\<close>

datatype tracker_op = Update "box list" | Reset

fun assigned :: "tracker \<Rightarrow> tracker_op list \<Rightarrow> int list option" where
  "assigned t [] = Some []"
| "assigned t (Reset # ops) = assigned (reset t) ops"
| "assigned t (Update boxes # ops) =
     (case update t boxes of
        None \<Rightarrow> None
      | Some (ids, t') \<Rightarrow>
          (case assigned t' ops of
             None \<Rightarrow> None
           | Some rest \<Rightarrow>
               Some (filter (\<lambda>i. i \<notin> set (dict_keys (tracked_persons t))) ids @ rest)))"

fun is_update :: "tracker_op \<Rightarrow> bool" where
  "is_update (Update boxes) = True"
| "is_update Reset = False"

subsection \<open>The greedy matching of the specification\<close>

text \<open>
  Following the specification. The candidates for a centroid are the existing tracks, as
  they were when the call began, that are not yet used and whose distance to the centroid is
  strictly below the threshold. The nearest of them is one at the least distance (the first
  such in the order of the tracks).
\<close>

definition spec_candidates ::
  "real \<Rightarrow> (int \<times> track) list \<Rightarrow> int set \<Rightarrow> centroid \<Rightarrow> (int \<times> track) list" where
  "spec_candidates thr existing used c =
     filter (\<lambda>kt. fst kt \<notin> used \<and> calculate_distance c (centroid (snd kt)) < thr) existing"

definition spec_nearest ::
  "real \<Rightarrow> (int \<times> track) list \<Rightarrow> int set \<Rightarrow> centroid \<Rightarrow> int option" where
  "spec_nearest thr existing used c =
     (if spec_candidates thr existing used c = [] then None
      else Some (fst (arg_min_list (\<lambda>kt. calculate_distance c (centroid (snd kt)))
                        (spec_candidates thr existing used c))))"

text \<open>
  Following the specification. A matched track takes the centroid and a zero counter; a
  new track takes the next identity.
\<close>

definition spec_move :: "int \<Rightarrow> centroid \<Rightarrow> (int \<times> track) list \<Rightarrow> (int \<times> track) list" where
  "spec_move k c d =
     map (\<lambda>kt. if fst kt = k then (k, (snd kt)\<lparr>centroid := c, frames_missing := 0\<rparr>) else kt) d"

definition spec_register :: "tracker \<Rightarrow> centroid \<Rightarrow> tracker" where
  "spec_register t c =
     t\<lparr>tracked_persons :=
          tracked_persons t @ [(next_id t, \<lparr>centroid = c, frames_missing = 0, logged = False\<rparr>)],
       next_id := next_id t + 1\<rparr>"

text \<open>
  Following the specification. The centroids are processed in order; each is matched to
  the nearest candidate, which becomes used, or else registers a new track. The result is
  the identities in the order of the centroids, the used tracks and the tracker.
\<close>

fun spec_greedy ::
  "(int \<times> track) list \<Rightarrow> centroid list \<Rightarrow> int set \<Rightarrow> tracker \<Rightarrow> int list \<times> int set \<times> tracker"
  where
  "spec_greedy existing [] used t = ([], used, t)"
| "spec_greedy existing (c # cs) used t =
     (case spec_nearest (max_distance t) existing used c of
        Some k \<Rightarrow>
          (case spec_greedy existing cs (insert k used)
                  (t\<lparr>tracked_persons := spec_move k c (tracked_persons t)\<rparr>) of
             (ids, used', t') \<Rightarrow> (k # ids, used', t'))
      | None \<Rightarrow>
          (case spec_greedy existing cs used (spec_register t c) of
             (ids, used', t') \<Rightarrow> (next_id t # ids, used', t')))"

text \<open>
  Following the specification. After the matching, the counter of every existing track
  that was not matched is incremented, and then every track whose counter exceeds the
  memory window is removed.
\<close>

definition spec_age :: "int set \<Rightarrow> (int \<times> track) list \<Rightarrow> (int \<times> track) list" where
  "spec_age unmatched d =
     map (\<lambda>kt. if fst kt \<in> unmatched
                then (fst kt, (snd kt)\<lparr>frames_missing := frames_missing (snd kt) + 1\<rparr>)
                else kt) d"

definition spec_expire :: "int \<Rightarrow> (int \<times> track) list \<Rightarrow> (int \<times> track) list" where
  "spec_expire window d = filter (\<lambda>kt. \<not> frames_missing (snd kt) > window) d"

definition spec_update :: "tracker \<Rightarrow> box list \<Rightarrow> int list \<times> tracker" where
  "spec_update t boxes =
     (case spec_greedy (tracked_persons t) (map centroid_of boxes) {} t of
        (ids, used, t1) \<Rightarrow>
          (ids,
           t1\<lparr>tracked_persons :=
                spec_expire (memory_frames t)
                  (spec_age (set (dict_keys (tracked_persons t)) - used) (tracked_persons t1))\<rparr>))"

text \<open>
  What the two ageing loops of \<open>update\<close> make of a dictionary: the counters of the tracks
  in \<open>S\<close> are incremented, and those of them whose counter then exceeds the window are
  deleted.
\<close>

definition aged :: "int \<Rightarrow> int set \<Rightarrow> (int \<times> track) list \<Rightarrow> (int \<times> track) list" where
  "aged window S d =
     filter (\<lambda>kt. \<not> (fst kt \<in> S \<and> frames_missing (snd kt) > window)) (spec_age S d)"

text \<open>
  A sequence of \<open>update\<close> calls, one for the boxes of each frame: the identities each
  call returns and the tracker after the last call. \<open>None\<close> means that a call raised.
\<close>

fun run_updates :: "tracker \<Rightarrow> box list list \<Rightarrow> (int list list \<times> tracker) option" where
  "run_updates t [] = Some ([], t)"
| "run_updates t (boxes # rest) =
     (case update t boxes of
        None \<Rightarrow> None
      | Some (ids, t') \<Rightarrow>
          (case run_updates t' rest of
             None \<Rightarrow> None
           | Some (out, t'') \<Rightarrow> Some (ids # out, t'')))"

text \<open>A tracker whose only track is track 1, at the given centroid and counter.\<close>

definition one_track :: "real \<Rightarrow> int \<Rightarrow> centroid \<Rightarrow> int \<Rightarrow> tracker" where
  "one_track md mf c k =
     \<lparr>next_id = 2,
      tracked_persons = [(1, \<lparr>centroid = c, frames_missing = k, logged = False\<rparr>)],
      max_distance = md, memory_frames = mf\<rparr>"

section \<open>Properties of the rounding\<close>

lemma rne_err: "\<bar>of_int (rne q) - q\<bar> \<le> 1 / 2"
proof -
  have "of_int \<lfloor>q\<rfloor> \<le> q" "q < of_int \<lfloor>q\<rfloor> + 1" by linarith+
  then show ?thesis by (auto simp: rne_def Let_def)
qed

lemma rne_of_int [simp]: "rne (of_int n) = n"
  by (simp add: rne_def)

lemma rne_0 [simp]: "rne 0 = 0"
  using rne_of_int [of 0] by simp

lemma rne_nonneg: "0 \<le> q \<Longrightarrow> 0 \<le> rne q"
proof -
  assume "0 \<le> q"
  then have "0 \<le> \<lfloor>q\<rfloor>" by simp
  then show ?thesis by (auto simp: rne_def Let_def)
qed

lemma rne_nonpos: "q \<le> 0 \<Longrightarrow> rne q \<le> 0"
proof -
  assume q: "q \<le> 0"
  then have f: "\<lfloor>q\<rfloor> \<le> 0" by (simp add: floor_le_zero)
  show ?thesis
  proof (cases "\<lfloor>q\<rfloor> = 0")
    case True
    then have "0 \<le> q" by (metis of_int_0 of_int_floor_le)
    with q have "q = 0" by simp
    then show ?thesis by simp
  next
    case False
    with f have "\<lfloor>q\<rfloor> + 1 \<le> 0" by linarith
    with f show ?thesis by (auto simp: rne_def Let_def)
  qed
qed

lemma binade_spec:
  "2 powi (- 126) \<le> x \<Longrightarrow> x < 2 powi (int n - 125) \<Longrightarrow>
     2 powi (binade n x) \<le> x \<and> x < 2 powi (binade n x + 1)"
proof (induction n)
  case 0
  then show ?case by simp
next
  case (Suc n)
  show ?case
  proof (cases "2 powi (int n - 125) \<le> x")
    case True
    have "int n - 125 + 1 = int (Suc n) - 125" by simp
    with True Suc.prems(2) show ?thesis by simp
  next
    case False
    then have "x < 2 powi (int n - 125)" by simp
    from Suc.IH [OF Suc.prems(1) this] False show ?thesis by simp
  qed
qed

lemma binade_le: "binade n x \<le> int n - 126"
  by (induction n) auto

lemma binade_ge: "- 126 \<le> binade n x"
  by (induction n) auto

lemma binade_unique:
  assumes "2 powi e \<le> x" "x < 2 powi (e + 1)" "- 126 \<le> e" "e \<le> 127"
  shows "binade 253 x = e"
proof -
  have lo: "(2 :: real) powi (- 126) \<le> 2 powi e"
    using assms(3) by (intro power_int_increasing) simp_all
  have hi: "(2 :: real) powi (e + 1) \<le> 2 powi (int 253 - 125)"
    using assms(4) by (intro power_int_increasing) simp_all
  from lo hi assms have "2 powi (- 126) \<le> x" "x < 2 powi (int 253 - 125)" by linarith+
  from binade_spec [OF this]
  have b: "2 powi (binade 253 x) \<le> x" "x < 2 powi (binade 253 x + 1)" by simp_all
  have "binade 253 x < e + 1"
  proof (rule ccontr)
    assume "\<not> binade 253 x < e + 1"
    then have "(2 :: real) powi (e + 1) \<le> 2 powi (binade 253 x)"
      by (intro power_int_increasing) simp_all
    with b(1) assms(2) show False by linarith
  qed
  moreover have "e < binade 253 x + 1"
  proof (rule ccontr)
    assume "\<not> e < binade 253 x + 1"
    then have "(2 :: real) powi (binade 253 x + 1) \<le> 2 powi e"
      by (intro power_int_increasing) simp_all
    with b(2) assms(1) show False by linarith
  qed
  ultimately show ?thesis by simp
qed

lemma fl32_binade:
  assumes "2 powi e \<le> \<bar>x\<bar>" "\<bar>x\<bar> < 2 powi (e + 1)" "- 126 \<le> e" "e \<le> 127"
  shows "fl32 x =
     (let y = of_int (rne (x / 2 powi (e - 23))) * 2 powi (e - 23)
      in if 2 ^ 128 \<le> y then PosInf else if y \<le> - (2 ^ 128) then NegInf else Finite y)"
  unfolding fl32_def binade_unique [OF assms] by (simp add: Let_def)

lemma fl32_0 [simp]: "fl32 0 = Finite 0"
  by (simp add: fl32_def)

lemma fl32_normal:
  assumes "2 powi (- 126) \<le> \<bar>x\<bar>" and "\<bar>x\<bar> < 2 powi 127"
  shows "\<exists>y. fl32 x = Finite y \<and> \<bar>y - x\<bar> \<le> \<bar>x\<bar> / 2 ^ 24"
proof -
  let ?e = "binade 253 \<bar>x\<bar>"
  let ?u = "2 powi (?e - 23) :: real"
  let ?y = "of_int (rne (x / ?u)) * ?u"
  have "\<bar>x\<bar> < 2 powi (int 253 - 125)"
    using assms(2) power_int_strict_increasing [of 127 128 "2 :: real"] by simp
  from binade_spec [OF assms(1) this]
  have b: "2 powi ?e \<le> \<bar>x\<bar>" "\<bar>x\<bar> < 2 powi (?e + 1)" by simp_all
  have u0: "0 < ?u" by simp
  have uh: "1 / 2 * ?u = 2 powi ?e / 2 ^ 24"
  proof -
    have "(2 :: real) powi (?e - 23) = 2 powi ?e / 2 powi 23" by (simp add: power_int_diff)
    then show ?thesis by simp
  qed
  have "\<bar>?y - x\<bar> = \<bar>of_int (rne (x / ?u)) - x / ?u\<bar> * ?u"
  proof -
    have "?y - x = (of_int (rne (x / ?u)) - x / ?u) * ?u"
      using u0 by (simp add: left_diff_distrib)
    then show ?thesis using u0 by (simp only: abs_mult) simp
  qed
  also have "\<dots> \<le> 1 / 2 * ?u"
    using rne_err [of "x / ?u"] u0 by (intro mult_right_mono) simp_all
  also have "\<dots> = 2 powi ?e / 2 ^ 24" by (rule uh)
  also have "\<dots> \<le> \<bar>x\<bar> / 2 ^ 24" using b(1) by (simp add: divide_right_mono)
  finally have err: "\<bar>?y - x\<bar> \<le> \<bar>x\<bar> / 2 ^ 24" .
  have "\<bar>?y\<bar> \<le> \<bar>x\<bar> + \<bar>x\<bar> / 2 ^ 24" using err by linarith
  also have "\<dots> < 2 powi 127 + 2 powi 127 / 2 ^ 24"
    using assms(2) by (intro add_strict_mono divide_strict_right_mono) simp_all
  also have "\<dots> < 2 ^ 128" by simp
  finally have "\<bar>?y\<bar> < 2 ^ 128" .
  then have "\<not> 2 ^ 128 \<le> ?y" "\<not> ?y \<le> - (2 ^ 128)" by linarith+
  then have "fl32 x = Finite ?y" unfolding fl32_def Let_def by (simp only: if_False)
  with err show ?thesis by blast
qed

lemma fl32_sign_nonneg:
  assumes "0 \<le> x"
  shows "fl32 x = PosInf \<or> (\<exists>y. 0 \<le> y \<and> fl32 x = Finite y)"
proof -
  define u :: real where "u = 2 powi (binade 253 \<bar>x\<bar> - 23)"
  have u0: "0 < u" by (simp add: u_def)
  with assms have "0 \<le> x / u" by simp
  from rne_nonneg [OF this] u0 have "0 \<le> of_int (rne (x / u)) * u" by simp
  then show ?thesis by (auto simp: fl32_def Let_def u_def [symmetric])
qed

lemma fl32_sign_nonpos:
  assumes "x \<le> 0"
  shows "fl32 x = NegInf \<or> (\<exists>y. y \<le> 0 \<and> fl32 x = Finite y)"
proof -
  define u :: real where "u = 2 powi (binade 253 \<bar>x\<bar> - 23)"
  have u0: "0 < u" by (simp add: u_def)
  with assms have "x / u \<le> 0" by (simp add: divide_nonpos_pos)
  from rne_nonpos [OF this] u0 have y: "of_int (rne (x / u)) * u \<le> 0"
    by (simp add: mult_nonpos_nonneg)
  then have "\<not> 2 ^ 128 \<le> of_int (rne (x / u)) * u"
    by (smt (verit) zero_less_power)
  with y show ?thesis by (auto simp: fl32_def Let_def u_def [symmetric])
qed

lemma rounding_factor_low: "(1 / 2 :: real) \<le> (1 - 1 / 2 ^ 24) ^ 4" by (simp add: power_divide)
lemma rounding_factor_high: "(1 + 1 / 2 ^ 24 :: real) ^ 4 \<le> 2" by (simp add: power_divide)
lemma ratio_above_threshold:
  "(5033165 / 2 ^ 24 :: real)
     < 3 / 10 * (1 + 1 / 10 ^ 6) * ((1 - 1 / 2 ^ 24) ^ 4 / (1 + 1 / 2 ^ 24) ^ 3)"
  by (simp add: power_divide)
lemma ratio_below_threshold:
  "(3 / 10 * (1 - 1 / 10 ^ 6) * ((1 + 1 / 2 ^ 24) ^ 4 / (1 - 1 / 2 ^ 24) ^ 3) :: real)
     < 5404319552844595 / 2 ^ 54"
  by (simp add: power_divide)
lemma threshold_double_below_single: "(5404319552844595 / 2 ^ 54 :: real) < 5033165 / 2 ^ 24" by simp

lemma fl32_threshold: "fl32 default_threshold = Finite (5033165 / 2 ^ 24)"
proof -
  have "fl32 default_threshold =
     (let y = of_int (rne (default_threshold / 2 powi (- 2 - 23))) * 2 powi (- 2 - 23)
      in if 2 ^ 128 \<le> y then PosInf else if y \<le> - (2 ^ 128) then NegInf else Finite y)"
    by (rule fl32_binade) (simp_all add: default_threshold_def)
  also have "rne (default_threshold / 2 powi (- 2 - 23)) = 10066330"
    by (simp add: default_threshold_def rne_def Let_def)
  finally show ?thesis by (simp add: Let_def)
qed

lemma fl32_near:
  assumes "1 / 2 ^ 100 \<le> x" and "x \<le> 2 ^ 100"
  shows "\<exists>y. fl32 x = Finite y \<and> near 1 x y"
proof -
  have x0: "0 < x" using assms(1) by (smt (verit) divide_pos_pos zero_less_power)
  have "(2 :: real) powi (- 126) \<le> 1 / 2 ^ 100" by simp
  with assms(1) x0 have lo: "2 powi (- 126) \<le> \<bar>x\<bar>" by simp
  have "(2 :: real) ^ 100 < 2 powi 127" by simp
  with assms(2) x0 have hi: "\<bar>x\<bar> < 2 powi 127" by simp
  from fl32_normal [OF lo hi] obtain y where y: "fl32 x = Finite y" "\<bar>y - x\<bar> \<le> \<bar>x\<bar> / 2 ^ 24"
    by blast
  define c where "c = x / 2 ^ 24"
  from y(2) x0 have "\<bar>y - x\<bar> \<le> c" by (simp add: c_def)
  then have "x - c \<le> y" "y \<le> x + c" by linarith+
  then have "near 1 x y" by (simp add: near_def c_def algebra_simps)
  with y(1) show ?thesis by blast
qed

lemma near_nonneg: "near k x y \<Longrightarrow> 0 \<le> x \<Longrightarrow> 0 \<le> y"
proof -
  assume n: "near k x y" and x: "0 \<le> x"
  have "0 \<le> (1 - 1 / 2 ^ 24 :: real) ^ k" by simp
  with x have "0 \<le> x * (1 - 1 / 2 ^ 24) ^ k" by (rule mult_nonneg_nonneg)
  with n show ?thesis by (simp add: near_def)
qed

lemma near_mul:
  assumes "near j x y" and "near k x' y'" and "0 \<le> x" and "0 \<le> x'"
  shows "near (j + k) (x * x') (y * y')"
proof -
  let ?a = "1 - 1 / 2 ^ 24 :: real" and ?b = "1 + 1 / 2 ^ 24 :: real"
  have a: "0 \<le> ?a ^ j" "0 \<le> ?a ^ k" by simp_all
  have y: "0 \<le> y" "0 \<le> y'" using assms near_nonneg by blast+
  have "(x * ?a ^ j) * (x' * ?a ^ k) \<le> y * y'"
    using assms a y by (intro mult_mono) (simp_all add: near_def)
  moreover have "y * y' \<le> (x * ?b ^ j) * (x' * ?b ^ k)"
    using assms y by (intro mult_mono) (simp_all add: near_def)
  ultimately show ?thesis by (simp add: near_def power_add mult_ac)
qed

lemma near_trans:
  assumes "near j x y" and "near k y z"
  shows "near (j + k) x z"
proof -
  let ?a = "1 - 1 / 2 ^ 24 :: real" and ?b = "1 + 1 / 2 ^ 24 :: real"
  have "x * ?a ^ j * ?a ^ k \<le> y * ?a ^ k"
    using assms(1) by (intro mult_right_mono) (simp_all add: near_def)
  also have "\<dots> \<le> z" using assms(2) by (simp add: near_def)
  finally have lo: "x * ?a ^ (j + k) \<le> z" by (simp add: power_add mult.assoc)
  have "z \<le> y * ?b ^ k" using assms(2) by (simp add: near_def)
  also have "\<dots> \<le> x * ?b ^ j * ?b ^ k"
    using assms(1) by (intro mult_right_mono) (simp_all add: near_def)
  finally have "z \<le> x * ?b ^ (j + k)" by (simp add: power_add mult.assoc)
  with lo show ?thesis unfolding near_def by blast
qed

lemma near_bounds:
  assumes "near k x y" and "k \<le> 4" and "0 \<le> x"
  shows "x / 2 \<le> y" and "y \<le> 2 * x"
proof -
  let ?a = "1 - 1 / 2 ^ 24 :: real" and ?b = "1 + 1 / 2 ^ 24 :: real"
  have "?a ^ 4 \<le> ?a ^ k" using assms(2) by (intro power_decreasing) simp_all
  with rounding_factor_low have a: "1 / 2 \<le> ?a ^ k" by linarith
  have "?b ^ k \<le> ?b ^ 4" using assms(2) by (intro power_increasing) simp_all
  with rounding_factor_high have b: "?b ^ k \<le> 2" by linarith
  have "x * (1 / 2) \<le> x * ?a ^ k" using a assms(3) by (intro mult_left_mono)
  with assms(1) show "x / 2 \<le> y" by (simp add: near_def)
  have "x * ?b ^ k \<le> x * 2" using b assms(3) by (intro mult_left_mono)
  with assms(1) show "y \<le> 2 * x" by (simp add: near_def)
qed

lemma default_threshold_nearest: "\<bar>default_threshold - 3 / 10\<bar> < 1 / 2 ^ 55"
  by (simp add: default_threshold_def)

section \<open>Properties of the overlap test\<close>

lemma f32_gt_zero: "0 \<le> t \<Longrightarrow> \<not> f32_gt np (Finite 0) t"
proof (cases np)
  case Legacy
  assume "0 \<le> t"
  with Legacy show ?thesis by simp
next
  case Nep50
  assume "0 \<le> t"
  from fl32_sign_nonneg [OF this] Nep50 show ?thesis by auto
qed

lemma f32_mul_zero_left: "f32_mul (Finite 0) b = Finite 0 \<or> f32_mul (Finite 0) b = NaN"
  by (cases b) simp_all

lemma f32_mul_zero_right: "f32_mul a (Finite 0) = Finite 0 \<or> f32_mul a (Finite 0) = NaN"
  by (cases a) simp_all

lemma f32_mul_sub_zero:
  "w = 0 \<or> h = 0 \<Longrightarrow>
     f32_mul (fl32 w) (fl32 h) = Finite 0 \<or> f32_mul (fl32 w) (fl32 h) = NaN"
  using f32_mul_zero_left [of "fl32 h"] f32_mul_zero_right [of "fl32 w"] by auto

lemma ratio_of_zero:
  assumes "i = Finite 0 \<or> i = NaN" and "0 \<le> t"
  shows "\<not> f32_gt np (if f32_positive a then f32_div i a else Finite 0) t"
proof (cases "f32_positive a")
  case False
  then show ?thesis using f32_gt_zero [OF assms(2)] by simp
next
  case True
  from assms(1) have "f32_div i a = Finite 0 \<or> f32_div i a = NaN"
    using True by (cases a) auto
  with True show ?thesis using f32_gt_zero [OF assms(2)] by auto
qed


lemma check_proximity_no_inter:
  assumes "min a2 c2 - max a1 c1 \<le> 0 \<or> min b2 d2 - max b1 d1 \<le> 0" and "0 \<le> t"
  shows "\<not> check_proximity np (a1, b1, a2, b2) (c1, d1, c2, d2) t"
proof (cases "min a2 c2 < max a1 c1 \<or> min b2 d2 < max b1 d1")
  case True
  then show ?thesis by (auto simp: Let_def)
next
  case False
  with assms(1) have "min a2 c2 - max a1 c1 = 0 \<or> min b2 d2 - max b1 d1 = 0" by auto
  from f32_mul_sub_zero [OF this]
  have "f32_mul (fl32 (min a2 c2 - max a1 c1)) (fl32 (min b2 d2 - max b1 d1)) = Finite 0
      \<or> f32_mul (fl32 (min a2 c2 - max a1 c1)) (fl32 (min b2 d2 - max b1 d1)) = NaN" .
  from ratio_of_zero [OF this assms(2)] False show ?thesis
    by (simp add: Let_def f32_sub_def)
qed


lemma proximity_degenerate_det:
  assumes "degenerate b" and "0 \<le> th"
  shows "\<not> check_proximity np pb b th"
proof -
  obtain a1 b1 a2 b2 where p: "pb = (a1, b1, a2, b2)" by (cases pb) auto
  obtain c1 d1 c2 d2 where d: "b = (c1, d1, c2, d2)" by (cases b) auto
  from assms(1) have "c2 \<le> c1 \<or> d2 \<le> d1" by (simp add: d)
  then have "min a2 c2 - max a1 c1 \<le> 0 \<or> min b2 d2 - max b1 d1 \<le> 0" by auto
  from check_proximity_no_inter [OF this assms(2)] show ?thesis by (simp add: p d)
qed

lemma proximity_degenerate_person:
  assumes "degenerate pb" and "0 \<le> th"
  shows "\<not> check_proximity np pb b th"
proof -
  obtain a1 b1 a2 b2 where p: "pb = (a1, b1, a2, b2)" by (cases pb) auto
  obtain c1 d1 c2 d2 where d: "b = (c1, d1, c2, d2)" by (cases b) auto
  from assms(1) have "a2 \<le> a1 \<or> b2 \<le> b1" by (simp add: p)
  then have "min a2 c2 - max a1 c1 \<le> 0 \<or> min b2 d2 - max b1 d1 \<le> 0" by auto
  from check_proximity_no_inter [OF this assms(2)] show ?thesis by (simp add: p d)
qed

lemma default_threshold_nonneg: "0 \<le> default_threshold"
  by (simp add: default_threshold_def)


lemma pixel_range:
  assumes "1 / 2 ^ 20 \<le> (v :: real)" and "v \<le> 2 ^ 20"
  shows "1 / 2 ^ 100 \<le> v" and "v \<le> 2 ^ 100" and "0 < v"
proof -
  have "(1 / 2 ^ 100 :: real) \<le> 1 / 2 ^ 20" by simp
  with assms(1) show "1 / 2 ^ 100 \<le> v" by linarith
  have "(2 ^ 20 :: real) \<le> 2 ^ 100" by simp
  with assms(2) show "v \<le> 2 ^ 100" by linarith
  have "(0 :: real) < 1 / 2 ^ 20" by simp
  with assms(1) show "0 < v" by linarith
qed

lemma rounded_product:
  assumes "1 / 2 ^ 20 \<le> w" and "w \<le> 2 ^ 20" and "1 / 2 ^ 20 \<le> h" and "h \<le> 2 ^ 20"
  shows "\<exists>i. f32_mul (fl32 w) (fl32 h) = Finite i \<and> near 3 (w * h) i
             \<and> 1 / 2 ^ 43 \<le> i \<and> i \<le> 2 ^ 43"
proof -
  note rw = pixel_range [OF assms(1,2)] and rh = pixel_range [OF assms(3,4)]
  from fl32_near [OF rw(1,2)] obtain fw where fw: "fl32 w = Finite fw" "near 1 w fw" by blast
  from fl32_near [OF rh(1,2)] obtain fh where fh: "fl32 h = Finite fh" "near 1 h fh" by blast
  have w0: "0 \<le> w" and h0: "0 \<le> h" using rw(3) rh(3) by simp_all
  have e2: "(1 :: nat) + 1 = 2" and e3: "(2 :: nat) + 1 = 3" by simp_all
  from near_mul [OF fw(2) fh(2) w0 h0] have n2: "near 2 (w * h) (fw * fh)" unfolding e2 .
  have wh0: "0 \<le> w * h" using w0 h0 by simp
  have "1 / 2 ^ 20 * (1 / 2 ^ 20) \<le> w * h"
    using assms(1,3) by (intro mult_mono) simp_all
  then have lo: "1 / 2 ^ 41 \<le> w * h / 2" by (simp add: mult.commute)
  have "w * h \<le> 2 ^ 20 * 2 ^ 20"
    using assms(2,4) w0 h0 by (intro mult_mono) simp_all
  then have hi: "2 * (w * h) \<le> 2 ^ 41" by (simp add: mult.commute)
  from near_bounds [OF n2 _ wh0] have b: "w * h / 2 \<le> fw * fh" "fw * fh \<le> 2 * (w * h)"
    by simp_all
  have p1: "1 / 2 ^ 100 \<le> fw * fh"
  proof -
    have "(1 / 2 ^ 100 :: real) \<le> 1 / 2 ^ 41" by simp
    also note lo
    also note b(1)
    finally show ?thesis .
  qed
  have p2: "fw * fh \<le> 2 ^ 100"
  proof -
    note b(2)
    also note hi
    also have "(2 ^ 41 :: real) \<le> 2 ^ 100" by simp
    finally show ?thesis .
  qed
  from fl32_near [OF p1 p2] obtain i where i: "fl32 (fw * fh) = Finite i" "near 1 (fw * fh) i"
    by blast
  from near_trans [OF n2 i(2)] have n3: "near 3 (w * h) i" unfolding e3 .
  from near_bounds [OF n3 _ wh0] have c: "w * h / 2 \<le> i" "i \<le> 2 * (w * h)" by simp_all
  have "1 / 2 ^ 43 \<le> i"
  proof -
    have "(1 / 2 ^ 43 :: real) \<le> 1 / 2 ^ 41" by simp
    also note lo
    also note c(1)
    finally show ?thesis .
  qed
  moreover have "i \<le> 2 ^ 43"
  proof -
    note c(2)
    also note hi
    also have "(2 ^ 41 :: real) \<le> 2 ^ 43" by simp
    finally show ?thesis .
  qed
  moreover have "f32_mul (fl32 w) (fl32 h) = Finite i" by (simp add: fw(1) fh(1) i(1))
  ultimately show ?thesis using n3 by blast
qed

lemma rounded_ratio:
  assumes "1 / 2 ^ 20 \<le> w" and "w \<le> 2 ^ 20" and "1 / 2 ^ 20 \<le> h" and "h \<le> 2 ^ 20"
    and "1 / 2 ^ 20 \<le> W" and "W \<le> 2 ^ 20" and "1 / 2 ^ 20 \<le> H" and "H \<le> 2 ^ 20"
  shows "\<exists>r. f32_positive (f32_mul (fl32 W) (fl32 H))
           \<and> f32_div (f32_mul (fl32 w) (fl32 h)) (f32_mul (fl32 W) (fl32 H)) = Finite r
           \<and> w * h / (W * H) * ((1 - 1 / 2 ^ 24) ^ 4 / (1 + 1 / 2 ^ 24) ^ 3) \<le> r
           \<and> r \<le> w * h / (W * H) * ((1 + 1 / 2 ^ 24) ^ 4 / (1 - 1 / 2 ^ 24) ^ 3)"
proof -
  let ?a = "1 - 1 / 2 ^ 24 :: real" and ?b = "1 + 1 / 2 ^ 24 :: real"
  have a0: "0 < ?a" and b0: "0 < ?b" by simp_all
  from rounded_product [OF assms(1-4)] obtain i where
    i: "f32_mul (fl32 w) (fl32 h) = Finite i" "near 3 (w * h) i" "1 / 2 ^ 43 \<le> i" "i \<le> 2 ^ 43"
    by blast
  from rounded_product [OF assms(5-8)] obtain a where
    a: "f32_mul (fl32 W) (fl32 H) = Finite a" "near 3 (W * H) a" "1 / 2 ^ 43 \<le> a" "a \<le> 2 ^ 43"
    by blast
  have i0: "0 < i" using i(3) by (smt (verit) divide_pos_pos zero_less_power)
  have a0': "0 < a" using a(3) by (smt (verit) divide_pos_pos zero_less_power)
  have wh: "0 \<le> w * h" using pixel_range(3) [OF assms(1,2)] pixel_range(3) [OF assms(3,4)]
    by simp
  have WH: "0 < W * H" using pixel_range(3) [OF assms(5,6)] pixel_range(3) [OF assms(7,8)]
    by simp
  have q1: "1 / 2 ^ 100 \<le> i / a"
  proof -
    have "(1 / 2 ^ 100 :: real) \<le> 1 / 2 ^ 43 / 2 ^ 43" by simp
    also have "\<dots> \<le> i / a"
      by (rule frac_le [OF less_imp_le [OF i0] i(3) a0' a(4)])
    finally show ?thesis .
  qed
  have q2: "i / a \<le> 2 ^ 100"
  proof -
    have "i / a \<le> 2 ^ 43 / (1 / 2 ^ 43)"
      by (rule frac_le [OF _ i(4) _ a(3)]) simp_all
    also have "\<dots> \<le> 2 ^ 100" by simp
    finally show ?thesis .
  qed
  from fl32_near [OF q1 q2] obtain r where r: "fl32 (i / a) = Finite r" "near 1 (i / a) r"
    by blast
  from i(2) have il: "w * h * ?a ^ 3 \<le> i" and iu: "i \<le> w * h * ?b ^ 3"
    by (simp_all add: near_def)
  from a(2) have al: "W * H * ?a ^ 3 \<le> a" and au: "a \<le> W * H * ?b ^ 3"
    by (simp_all add: near_def)
  have lo: "w * h / (W * H) * (?a ^ 4 / ?b ^ 3) \<le> r"
  proof -
    from frac_le [OF less_imp_le [OF i0] il a0' au]
    have "w * h * ?a ^ 3 / (W * H * ?b ^ 3) \<le> i / a" .
    then have "w * h * ?a ^ 3 / (W * H * ?b ^ 3) * ?a \<le> i / a * ?a"
      using a0 by (intro mult_right_mono) simp_all
    also have "\<dots> \<le> r" using r(2) by (simp add: near_def)
    finally show ?thesis by (simp add: power_numeral_reduce mult_ac)
  qed
  have hi: "r \<le> w * h / (W * H) * (?b ^ 4 / ?a ^ 3)"
  proof -
    have p: "0 < W * H * ?a ^ 3" using WH a0 by simp
    have "0 \<le> w * h * ?b ^ 3" using wh by simp
    from frac_le [OF this iu p al]
    have "i / a \<le> w * h * ?b ^ 3 / (W * H * ?a ^ 3)" .
    then have "i / a * ?b \<le> w * h * ?b ^ 3 / (W * H * ?a ^ 3) * ?b"
      using b0 by (intro mult_right_mono) simp_all
    moreover have "r \<le> i / a * ?b" using r(2) by (simp add: near_def)
    ultimately have "r \<le> w * h * ?b ^ 3 / (W * H * ?a ^ 3) * ?b" by linarith
    then show ?thesis by (simp add: power_numeral_reduce mult_ac)
  qed
  have "f32_div (f32_mul (fl32 w) (fl32 h)) (f32_mul (fl32 W) (fl32 H)) = Finite r"
    using a0' by (simp add: i(1) a(1) r(1))
  moreover have "f32_positive (f32_mul (fl32 W) (fl32 H))" using a0' by (simp add: a(1))
  ultimately show ?thesis using lo hi by blast
qed

lemma f32_gt_above:
  assumes "5033165 / 2 ^ 24 < r"
  shows "f32_gt np (Finite r) default_threshold"
proof (cases np)
  case Legacy
  with assms threshold_double_below_single show ?thesis by (simp add: default_threshold_def)
next
  case Nep50
  with assms show ?thesis by (simp add: fl32_threshold)
qed

lemma f32_gt_below:
  assumes "r < 5404319552844595 / 2 ^ 54"
  shows "\<not> f32_gt np (Finite r) default_threshold"
proof (cases np)
  case Legacy
  with assms show ?thesis by (simp add: default_threshold_def)
next
  case Nep50
  with assms threshold_double_below_single show ?thesis by (simp add: fl32_threshold)
qed

lemma check_proximity_rounded:
  assumes "0 < bbox_area p" and "pixel_boxes p d"
  shows "3 / 10 * (1 + 1 / 10 ^ 6) \<le> inter_area p d / bbox_area p
           \<Longrightarrow> check_proximity np p d default_threshold"
    and "inter_area p d / bbox_area p \<le> 3 / 10 * (1 - 1 / 10 ^ 6)
           \<Longrightarrow> \<not> check_proximity np p d default_threshold"
proof -
  obtain a1 b1 a2 b2 where p: "p = (a1, b1, a2, b2)" by (cases p) auto
  obtain c1 d1 c2 d2 where d: "d = (c1, d1, c2, d2)" by (cases d) auto
  let ?w = "min a2 c2 - max a1 c1" and ?h = "min b2 d2 - max b1 d1"
  let ?W = "a2 - a1" and ?H = "b2 - b1"
  let ?lo = "(1 - 1 / 2 ^ 24) ^ 4 / (1 + 1 / 2 ^ 24) ^ 3 :: real"
  let ?hi = "(1 + 1 / 2 ^ 24) ^ 4 / (1 - 1 / 2 ^ 24) ^ 3 :: real"
  have area: "0 < ?W * ?H" using assms(1) by (simp add: p)
  have both:
    "(3 / 10 * (1 + 1 / 10 ^ 6) \<le> inter_area p d / bbox_area p
        \<longrightarrow> check_proximity np p d default_threshold)
     \<and> (inter_area p d / bbox_area p \<le> 3 / 10 * (1 - 1 / 10 ^ 6)
        \<longrightarrow> \<not> check_proximity np p d default_threshold)"
  proof (cases "?w \<le> 0 \<or> ?h \<le> 0")
    case True
    then have z: "inter_area p d = 0" by (auto simp: p d max_def)
    from check_proximity_no_inter [OF True default_threshold_nonneg]
    have "\<not> check_proximity np p d default_threshold" by (simp add: p d)
    then show ?thesis by (simp add: z)
  next
    case False
    then have "\<not> ?w \<le> 0" "\<not> ?h \<le> 0" by blast+
    then have wh: "0 < ?w" "0 < ?h" by (simp_all only: not_le)
    then have ia: "inter_area p d = ?w * ?h" by (simp add: p d max_def)
    from wh have "0 < ?W" "0 < ?H" by auto
    with assms(2) wh have r:
      "1 / 2 ^ 20 \<le> ?w" "?w \<le> 2 ^ 20" "1 / 2 ^ 20 \<le> ?h" "?h \<le> 2 ^ 20"
      "1 / 2 ^ 20 \<le> ?W" "?W \<le> 2 ^ 20" "1 / 2 ^ 20 \<le> ?H" "?H \<le> 2 ^ 20"
      by (auto simp: p d pixel_sized_def)
    from rounded_ratio [OF r] obtain q where q:
      "f32_positive (f32_mul (fl32 ?W) (fl32 ?H))"
      "f32_div (f32_mul (fl32 ?w) (fl32 ?h)) (f32_mul (fl32 ?W) (fl32 ?H)) = Finite q"
      "?w * ?h / (?W * ?H) * ?lo \<le> q" "q \<le> ?w * ?h / (?W * ?H) * ?hi"
      by blast
    have ne: "\<not> (min a2 c2 < max a1 c1 \<or> min b2 d2 < max b1 d1)" using wh by linarith
    have c: "check_proximity np p d default_threshold = f32_gt np (Finite q) default_threshold"
      by (simp only: p d check_proximity.simps Let_def f32_sub_def ne if_False q(1) q(2) if_True)
    have "bbox_area p = ?W * ?H" by (simp add: p)
    then have ratio: "inter_area p d / bbox_area p = ?w * ?h / (?W * ?H)" by (simp only: ia)
    have lo0: "0 \<le> ?lo" and hi0: "0 \<le> ?hi" by simp_all
    have up: "check_proximity np p d default_threshold"
      if "3 / 10 * (1 + 1 / 10 ^ 6) \<le> inter_area p d / bbox_area p"
    proof -
      from that have "3 / 10 * (1 + 1 / 10 ^ 6) * ?lo \<le> ?w * ?h / (?W * ?H) * ?lo"
        unfolding ratio using lo0 by (intro mult_right_mono)
      with q(3) ratio_above_threshold have "5033165 / 2 ^ 24 < q" by linarith
      from f32_gt_above [OF this] show ?thesis by (simp add: c)
    qed
    have down: "\<not> check_proximity np p d default_threshold"
      if "inter_area p d / bbox_area p \<le> 3 / 10 * (1 - 1 / 10 ^ 6)"
    proof -
      from that have "?w * ?h / (?W * ?H) * ?hi \<le> 3 / 10 * (1 - 1 / 10 ^ 6) * ?hi"
        unfolding ratio using hi0 by (intro mult_right_mono)
      with q(4) ratio_below_threshold have "q < 5404319552844595 / 2 ^ 54" by linarith
      from f32_gt_below [OF this] show ?thesis by (simp add: c)
    qed
    from up down show ?thesis by blast
  qed
  from both show "3 / 10 * (1 + 1 / 10 ^ 6) \<le> inter_area p d / bbox_area p
           \<Longrightarrow> check_proximity np p d default_threshold" by blast
  from both show "inter_area p d / bbox_area p \<le> 3 / 10 * (1 - 1 / 10 ^ 6)
           \<Longrightarrow> \<not> check_proximity np p d default_threshold" by blast
qed

section \<open>The overlap test at the boundary\<close>












declare check_proximity.simps [simp del]

lemmas eval_defs =
  check_violations_def person_detections_def PERSON_CLASS_def evaluate_person_def
  PPE_PROPER_def PPE_VIOLATIONS_def REQUIRED_PPE_def status_get_def dict_get_def




section \<open>Properties of the alert cooldowns\<close>

lemma trigger_alert_suppressed:
  "alert_suppressed s now \<Longrightarrow> trigger_alert s m now ne = s"
  by (simp add: trigger_alert_def alert_suppressed_def)


lemma send_email_frame:
  "last_alert_time (send_email_notification s m now) = last_alert_time s"
  "alerts_fired (send_email_notification s m now) = alerts_fired s"
  "audio_plays (send_email_notification s m now) = audio_plays s"
  by (simp_all add: send_email_notification_def send_email_async_def alerts_fired_def Let_def
        split: option.splits)

lemma send_email_jobs:
  "email_jobs (send_email_notification s m now) =
     (if email_enabled_checkbox s \<and> \<not> email_suppressed s now \<and> email_notifier_enabled s
      then (case current_frame s of
              Some frame \<Rightarrow>
                email_jobs s @ [\<lparr>job_time = now, job_message = m, job_frame = frame\<rparr>]
            | None \<Rightarrow> email_jobs s)
      else email_jobs s)"
  by (simp add: send_email_notification_def send_email_async_def email_suppressed_def Let_def
        split: option.splits)



lemma trigger_alert_fires:
  "\<not> alert_suppressed s now \<Longrightarrow>
     last_alert_time (trigger_alert s m now ne) = Some now \<and>
     alerts_fired (trigger_alert s m now ne) = alerts_fired s + 1 \<and>
     audio_plays (trigger_alert s m now ne) =
       (if audio_enabled s then audio_plays s + 1 else audio_plays s)"
  by (simp add: trigger_alert_def alert_suppressed_def Let_def send_email_frame)
     (simp add: alerts_fired_def)

lemma trigger_alert_jobs:
  "email_jobs (trigger_alert s m now ne) =
     (if \<not> alert_suppressed s now \<and> email_enabled_checkbox s \<and> \<not> email_suppressed s ne
         \<and> email_notifier_enabled s
      then (case current_frame s of
              Some frame \<Rightarrow>
                email_jobs s @ [\<lparr>job_time = ne, job_message = m, job_frame = frame\<rparr>]
            | None \<Rightarrow> email_jobs s)
      else email_jobs s)"
  by (auto simp: trigger_alert_def alert_suppressed_def Let_def send_email_jobs
        email_suppressed_def split: option.splits)









text \<open>
  C7, as stated, fails. After alerts at seconds 0 and 29 the e-mail channel last fired at
  second 0 and the alert channel at second 29. A call at second 31 is past the e-mail
  cooldown of 30 seconds, with e-mail enabled and a frame stored, yet it submits no job:
  the alert channel's cooldown of 3 seconds has not passed and \<open>trigger_alert\<close> returns
  before it reaches \<open>send_email_notification\<close>.
\<close>

theorem C7_email_depends_on_alert_cooldown:
  "email_enabled_checkbox alerted_at_0_and_29
   \<and> email_notifier_enabled alerted_at_0_and_29
   \<and> current_frame alerted_at_0_and_29 = Some 1
   \<and> last_email_time alerted_at_0_and_29 = Some 0
   \<and> last_alert_time alerted_at_0_and_29 = Some 29
   \<and> EMAIL_COOLDOWN \<le> 31 - 0
   \<and> \<not> email_suppressed alerted_at_0_and_29 31
   \<and> email_jobs (trigger_alert alerted_at_0_and_29 (Some ''Violation detected: no_helmet'') 31 31)
       = email_jobs alerted_at_0_and_29"
  by (simp add: alerted_at_0_and_29_def PPEDetectionApp_def trigger_alert_def
        send_email_notification_def send_email_async_def email_suppressed_def
        ALERT_COOLDOWN_def EMAIL_COOLDOWN_def)

text \<open>
  C7, amended. A call of \<open>trigger_alert\<close> submits an e-mail job exactly when the alert
  channel is not suppressed at the time of the call and the e-mail channel, read when
  \<open>send_email_notification\<close> runs, is not suppressed either, with e-mail notification
  checked, the notifier enabled and a frame stored; the job carries the message and that
  frame. While the alert channel is suppressed no job is submitted, whatever the state of
  the e-mail channel.
\<close>

theorem C7_email_gated_by_both_cooldowns:
  "email_jobs (trigger_alert s m now ne) =
     (if \<not> alert_suppressed s now \<and> email_enabled_checkbox s \<and> \<not> email_suppressed s ne
         \<and> email_notifier_enabled s
      then (case current_frame s of
              Some frame \<Rightarrow>
                email_jobs s @ [\<lparr>job_time = ne, job_message = m, job_frame = frame\<rparr>]
            | None \<Rightarrow> email_jobs s)
      else email_jobs s)"
  by (rule trigger_alert_jobs)

theorem C7_email_gated_by_both_cooldowns_witness:
  "email_jobs (trigger_alert alerted_at_0_and_29 None 31 31) = email_jobs alerted_at_0_and_29
   \<and> email_jobs (trigger_alert alerted_at_0_and_29 None 32 32) =
       email_jobs alerted_at_0_and_29 @ [\<lparr>job_time = 32, job_message = None, job_frame = 1\<rparr>]"
proof -
  have f: "email_enabled_checkbox alerted_at_0_and_29" "email_notifier_enabled alerted_at_0_and_29"
    "current_frame alerted_at_0_and_29 = Some 1" "last_email_time alerted_at_0_and_29 = Some 0"
    "last_alert_time alerted_at_0_and_29 = Some 29"
    by (simp_all add: alerted_at_0_and_29_def PPEDetectionApp_def trigger_alert_def
        send_email_notification_def send_email_async_def
        ALERT_COOLDOWN_def EMAIL_COOLDOWN_def)
  have g: "alert_suppressed alerted_at_0_and_29 31" "\<not> alert_suppressed alerted_at_0_and_29 32"
    "\<not> email_suppressed alerted_at_0_and_29 32"
    by (simp_all add: alert_suppressed_def email_suppressed_def f
        ALERT_COOLDOWN_def EMAIL_COOLDOWN_def)
  show ?thesis
    using C7_email_gated_by_both_cooldowns [of alerted_at_0_and_29 None 31 31]
      C7_email_gated_by_both_cooldowns [of alerted_at_0_and_29 None 32 32]
    by (simp add: f g)
qed

section \<open>Properties of the compliance evaluation\<close>

lemma violation_inner_eq:
  "violation_inner np pb v dets vd = (if associated np dets pb v then Some v else vd)"
  by (induction dets) (auto simp: associated_def)

lemma violation_outer_find:
  "[] \<notin> set vs \<Longrightarrow> violation_outer np pb vs dets None = find (associated np dets pb) vs"
  by (induction vs) (auto simp: violation_inner_eq Let_def)

lemma ppe_inner_none:
  "\<forall>d \<in> set dets. \<not> check_proximity np pb (bbox d) default_threshold \<Longrightarrow>
     ppe_inner np pb item dets st = st"
  by (induction dets arbitrary: st) auto

lemma ppe_outer_none:
  "\<forall>d \<in> set dets. \<not> check_proximity np pb (bbox d) default_threshold \<Longrightarrow>
     ppe_outer np pb items dets st = st"
  by (induction items arbitrary: st) (auto simp: ppe_inner_none)

lemma ppe_inner_drop:
  "\<not> check_proximity np pb (bbox d) default_threshold \<Longrightarrow>
     ppe_inner np pb item (xs @ d # ys) st = ppe_inner np pb item (xs @ ys) st"
  by (induction xs arbitrary: st) auto

lemma ppe_outer_drop:
  "\<not> check_proximity np pb (bbox d) default_threshold \<Longrightarrow>
     ppe_outer np pb items (xs @ d # ys) st = ppe_outer np pb items (xs @ ys) st"
  by (induction items arbitrary: st) (auto simp: ppe_inner_drop)

lemma associated_drop:
  "\<not> check_proximity np pb (bbox d) default_threshold \<Longrightarrow>
     associated np (xs @ d # ys) pb c = associated np (xs @ ys) pb c"
  by (auto simp: associated_def)

lemma violation_outer_drop:
  "\<not> check_proximity np pb (bbox d) default_threshold \<Longrightarrow>
     violation_outer np pb vs (xs @ d # ys) vd = violation_outer np pb vs (xs @ ys) vd"
  by (induction vs arbitrary: vd) (auto simp: violation_inner_eq associated_drop Let_def)

lemma evaluate_person_drop:
  "\<not> check_proximity np (bbox p) (bbox d) default_threshold \<Longrightarrow>
     evaluate_person np m (xs @ d # ys) p = evaluate_person np m (xs @ ys) p"
proof -
  assume n: "\<not> check_proximity np (bbox p) (bbox d) default_threshold"
  have e1: "ppe_outer np (bbox p) items (xs @ d # ys) st = ppe_outer np (bbox p) items (xs @ ys) st"
    for items st using n by (rule ppe_outer_drop)
  have e2: "violation_outer np (bbox p) vs (xs @ d # ys) vd = violation_outer np (bbox p) vs (xs @ ys) vd"
    for vs vd using n by (rule violation_outer_drop)
  show ?thesis unfolding evaluate_person_def Let_def e1 e2 ..
qed

lemma check_violations_drop:
  assumes "degenerate (bbox d)" and "class_name d \<noteq> PERSON_CLASS"
  shows "check_violations np m (xs @ d # ys) = check_violations np m (xs @ ys)"
proof -
  have "\<not> check_proximity np (bbox p) (bbox d) default_threshold" for p
    using assms(1) proximity_degenerate_det default_threshold_nonneg by blast
  then have e: "evaluate_person np m (xs @ d # ys) p = evaluate_person np m (xs @ ys) p" for p
    by (rule evaluate_person_drop)
  show ?thesis
    using assms(2) by (simp add: check_violations_def person_detections_def e)
qed

lemma evaluate_degenerate_person:
  assumes "degenerate (bbox p)"
  shows "evaluate_person np 1 dets p =
     \<lparr>has_violation = True,
      violation_message = Some ''Missing PPE: helmet, gloves, vest, boots, goggles'',
      ppe_status = [(''helmet'', False), (''vest'', False), (''gloves'', False),
                    (''boots'', False), (''goggles'', False)],
      person_confidence = confidence p,
      person_bbox = bbox p\<rparr>"
proof -
  have n: "\<forall>d \<in> set dets. \<not> check_proximity np (bbox p) (bbox d) default_threshold"
    using assms proximity_degenerate_person default_threshold_nonneg by blast
  then have a: "\<And>c. \<not> associated np dets (bbox p) c" by (auto simp: associated_def)
  have ne: "[] \<notin> set PPE_VIOLATIONS" by (simp add: PPE_VIOLATIONS_def)
  have "find (associated np dets (bbox p)) PPE_VIOLATIONS = None"
    by (simp add: find_None_iff a)
  then have v: "violation_outer np (bbox p) PPE_VIOLATIONS dets None = None"
    by (simp add: violation_outer_find [OF ne])
  show ?thesis
    unfolding evaluate_person_def
    by (simp add: ppe_outer_none [OF n] v Let_def)
       (simp add: PPE_PROPER_def status_get_def dict_get_def)
qed

lemma find_Some_D: "find P xs = Some v \<Longrightarrow> v \<in> set xs \<and> P v"
  by (induction xs) (auto split: if_splits)

lemma evaluate_person_violation:
  assumes "find (associated np dets (bbox p)) PPE_VIOLATIONS = Some v"
  shows "has_violation (evaluate_person np 1 dets p)"
    and "violation_message (evaluate_person np 1 dets p) = Some (''Violation detected: '' @ v)"
proof -
  have ne: "[] \<notin> set PPE_VIOLATIONS" by (simp add: PPE_VIOLATIONS_def)
  have "v \<in> set PPE_VIOLATIONS" using find_Some_D [OF assms] by simp
  with ne have v: "v \<noteq> []" by auto
  have o: "violation_outer np (bbox p) PPE_VIOLATIONS dets None = Some v"
    using assms by (simp add: violation_outer_find [OF ne])
  show "has_violation (evaluate_person np 1 dets p)"
    unfolding evaluate_person_def by (simp add: o v Let_def)
  show "violation_message (evaluate_person np 1 dets p) = Some (''Violation detected: '' @ v)"
    unfolding evaluate_person_def by (simp add: o v Let_def)
qed

lemma two_violation_classes_reason:
  "associated np two_violation_classes (0, 0, 100, 200) ''none''"
  "violation_message (evaluate_person np 1 two_violation_classes
       \<lparr>class_name = ''Person'', confidence = 9 / 10, bbox = (0, 0, 100, 200)\<rparr>)
     = Some ''Violation detected: no_helmet''"
proof -
  let ?p = "\<lparr>class_name = ''Person'', confidence = 9 / 10, bbox = (0, 0, 100, 200)\<rparr>"
  have n1: "check_proximity np (0, 0, 100, 200) (0, 0, 100, 200) default_threshold"
    by (rule check_proximity_rounded(1)) (simp_all add: pixel_sized_def)
  have n2: "check_proximity np (0, 0, 100, 200) (10, 10, 90, 160) default_threshold"
    by (rule check_proximity_rounded(1)) (simp_all add: pixel_sized_def)
  show "associated np two_violation_classes (0, 0, 100, 200) ''none''"
    by (simp add: associated_def two_violation_classes_def n1)
  have "associated np two_violation_classes (bbox ?p) ''no_helmet''"
    by (simp add: associated_def two_violation_classes_def n2)
  then have "find (associated np two_violation_classes (bbox ?p)) PPE_VIOLATIONS
               = Some ''no_helmet''"
    by (simp add: PPE_VIOLATIONS_def)
  from evaluate_person_violation(2) [OF this]
  show "violation_message (evaluate_person np 1 two_violation_classes ?p)
          = Some ''Violation detected: no_helmet''"
    by simp
qed

text \<open>
  C4, as stated, fails when detections of several violation classes are near the person:
  the reason names one class only, the first class in the order of \<open>PPE_VIOLATIONS\<close>
  that is near, and not the class of every associated violation detection. With a
  \<open>none\<close> detection covering the person box and a \<open>no_helmet\<close> detection near it, the
  \<open>none\<close> detection is associated with the person, and the reason is \<open>no_helmet\<close>,
  under both comparison rules.
\<close>

theorem C4_reason_is_first_listed_class:
  "''none'' \<in> set PPE_VIOLATIONS
   \<and> associated Legacy two_violation_classes (0, 0, 100, 200) ''none''
   \<and> violation_message (evaluate_person Legacy 1 two_violation_classes
         \<lparr>class_name = ''Person'', confidence = 9 / 10, bbox = (0, 0, 100, 200)\<rparr>)
       = Some ''Violation detected: no_helmet''
   \<and> associated Nep50 two_violation_classes (0, 0, 100, 200) ''none''
   \<and> violation_message (evaluate_person Nep50 1 two_violation_classes
         \<lparr>class_name = ''Person'', confidence = 9 / 10, bbox = (0, 0, 100, 200)\<rparr>)
       = Some ''Violation detected: no_helmet''"
proof -
  have "''none'' \<in> set PPE_VIOLATIONS" by (simp add: PPE_VIOLATIONS_def)
  with two_violation_classes_reason [of Legacy] two_violation_classes_reason [of Nep50]
  show ?thesis by (intro conjI)
qed

text \<open>
  C4, amended. In mode 1, when a detection of a violation class is near a person (the
  overlap test of the code holds for the two boxes), the person's result is part of the
  frame's results, is marked as a violation, and its message names a violation class near
  the person: the first one of \<open>PPE_VIOLATIONS\<close> that is near, which is the class of that
  detection when no other violation class is near. The message is never the list of
  missing items, whatever proper items are near the person.
\<close>

theorem C4_explicit_violation_precedence:
  assumes "p \<in> set dets" and "class_name p = PERSON_CLASS"
    and "d \<in> set dets" and "class_name d \<in> set PPE_VIOLATIONS"
    and "check_proximity np (bbox p) (bbox d) default_threshold"
  shows "evaluate_person np 1 dets p \<in> set (check_violations np 1 dets)
    \<and> has_violation (evaluate_person np 1 dets p)
    \<and> (\<exists>v. find (associated np dets (bbox p)) PPE_VIOLATIONS = Some v
           \<and> violation_message (evaluate_person np 1 dets p)
               = Some (''Violation detected: '' @ v))
    \<and> ((\<forall>v \<in> set PPE_VIOLATIONS. associated np dets (bbox p) v \<longrightarrow> v = class_name d)
         \<longrightarrow> violation_message (evaluate_person np 1 dets p)
               = Some (''Violation detected: '' @ class_name d))"
proof -
  have a: "associated np dets (bbox p) (class_name d)"
    using assms(3,5) by (auto simp: associated_def)
  with assms(4) have "find (associated np dets (bbox p)) PPE_VIOLATIONS \<noteq> None"
    by (auto simp: find_None_iff)
  then obtain v where v: "find (associated np dets (bbox p)) PPE_VIOLATIONS = Some v" by auto
  note r = evaluate_person_violation [OF v]
  have m: "evaluate_person np 1 dets p \<in> set (check_violations np 1 dets)"
    using assms(1,2) by (simp add: check_violations_def person_detections_def)
  have u: "v = class_name d"
    if "\<forall>v \<in> set PPE_VIOLATIONS. associated np dets (bbox p) v \<longrightarrow> v = class_name d"
    using that find_Some_D [OF v] by blast
  from m r v u show ?thesis by auto
qed

theorem C4_explicit_violation_precedence_witness:
  "has_violation (evaluate_person Nep50 1
     [\<lparr>class_name = ''Person'', confidence = 9 / 10, bbox = (0, 0, 100, 200)\<rparr>,
      \<lparr>class_name = ''helmet'', confidence = 8 / 10, bbox = (0, 0, 100, 100)\<rparr>,
      \<lparr>class_name = ''no_helmet'', confidence = 7 / 10, bbox = (10, 10, 90, 160)\<rparr>]
     \<lparr>class_name = ''Person'', confidence = 9 / 10, bbox = (0, 0, 100, 200)\<rparr>)
   \<and> violation_message (evaluate_person Nep50 1
     [\<lparr>class_name = ''Person'', confidence = 9 / 10, bbox = (0, 0, 100, 200)\<rparr>,
      \<lparr>class_name = ''helmet'', confidence = 8 / 10, bbox = (0, 0, 100, 100)\<rparr>,
      \<lparr>class_name = ''no_helmet'', confidence = 7 / 10, bbox = (10, 10, 90, 160)\<rparr>]
     \<lparr>class_name = ''Person'', confidence = 9 / 10, bbox = (0, 0, 100, 200)\<rparr>)
     = Some ''Violation detected: no_helmet''"
proof -
  let ?p = "\<lparr>class_name = ''Person'', confidence = 9 / 10, bbox = (0, 0, 100, 200)\<rparr>"
  let ?h = "\<lparr>class_name = ''helmet'', confidence = 8 / 10, bbox = (0, 0, 100, 100)\<rparr>"
  let ?d = "\<lparr>class_name = ''no_helmet'', confidence = 7 / 10, bbox = (10, 10, 90, 160)\<rparr>"
  have 1: "?p \<in> set [?p, ?h, ?d]" and 2: "class_name ?p = PERSON_CLASS"
    and 3: "?d \<in> set [?p, ?h, ?d]" and 4: "class_name ?d \<in> set PPE_VIOLATIONS"
    by (simp_all add: PERSON_CLASS_def PPE_VIOLATIONS_def)
  have "check_proximity Nep50 (0, 0, 100, 200) (10, 10, 90, 160) default_threshold"
    by (rule check_proximity_rounded(1)) (simp_all add: pixel_sized_def)
  then have 5: "check_proximity Nep50 (bbox ?p) (bbox ?d) default_threshold" by simp
  have 6: "\<forall>v \<in> set PPE_VIOLATIONS. associated Nep50 [?p, ?h, ?d] (bbox ?p) v \<longrightarrow> v = class_name ?d"
    by (simp add: PPE_VIOLATIONS_def associated_def)
  from C4_explicit_violation_precedence [OF 1 2 3 4 5] 6 show ?thesis by simp
qed

text \<open>
  C9, as stated, fails for person detections: no detection is ever dropped. A person
  whose box has no area, or whose corners are out of order, is evaluated like any other
  person and, with nothing near such a box, comes out in mode 1 as missing every item.
\<close>

theorem C9_degenerate_person_is_evaluated:
  "degenerate (10, 10, 10, 50)
   \<and> check_violations Legacy 1
       [\<lparr>class_name = ''Person'', confidence = 9 / 10, bbox = (10, 10, 10, 50)\<rparr>] =
       [\<lparr>has_violation = True,
         violation_message = Some ''Missing PPE: helmet, gloves, vest, boots, goggles'',
         ppe_status = [(''helmet'', False), (''vest'', False), (''gloves'', False),
                       (''boots'', False), (''goggles'', False)],
         person_confidence = 9 / 10,
         person_bbox = (10, 10, 10, 50)\<rparr>]
   \<and> check_violations Nep50 1
       [\<lparr>class_name = ''Person'', confidence = 9 / 10, bbox = (10, 10, 10, 50)\<rparr>] =
       [\<lparr>has_violation = True,
         violation_message = Some ''Missing PPE: helmet, gloves, vest, boots, goggles'',
         ppe_status = [(''helmet'', False), (''vest'', False), (''gloves'', False),
                       (''boots'', False), (''goggles'', False)],
         person_confidence = 9 / 10,
         person_bbox = (10, 10, 10, 50)\<rparr>]
   \<and> degenerate (50, 10, 10, 50)
   \<and> check_violations Legacy 1
       [\<lparr>class_name = ''Person'', confidence = 9 / 10, bbox = (50, 10, 10, 50)\<rparr>] =
       [\<lparr>has_violation = True,
         violation_message = Some ''Missing PPE: helmet, gloves, vest, boots, goggles'',
         ppe_status = [(''helmet'', False), (''vest'', False), (''gloves'', False),
                       (''boots'', False), (''goggles'', False)],
         person_confidence = 9 / 10,
         person_bbox = (50, 10, 10, 50)\<rparr>]
   \<and> check_violations Nep50 1
       [\<lparr>class_name = ''Person'', confidence = 9 / 10, bbox = (50, 10, 10, 50)\<rparr>] =
       [\<lparr>has_violation = True,
         violation_message = Some ''Missing PPE: helmet, gloves, vest, boots, goggles'',
         ppe_status = [(''helmet'', False), (''vest'', False), (''gloves'', False),
                       (''boots'', False), (''goggles'', False)],
         person_confidence = 9 / 10,
         person_bbox = (50, 10, 10, 50)\<rparr>]"
  by (simp add: eval_defs)

text \<open>
  C9, amended. A detection that is not a person and has a degenerate box is near no
  person, and the results of the frame are those of the frame without it; the evaluation
  of a frame always yields one result for each person detection. A person detection
  with a degenerate box is not dropped: nothing is near it, and in mode 1 its result is a
  violation that lists every item as missing.
\<close>

theorem C9_degenerate_boxes:
  "(\<forall>pb b. degenerate b \<longrightarrow> \<not> check_proximity np pb b default_threshold)
   \<and> (\<forall>m xs d ys. degenerate (bbox d) \<and> class_name d \<noteq> PERSON_CLASS \<longrightarrow>
         check_violations np m (xs @ d # ys) = check_violations np m (xs @ ys))
   \<and> (\<forall>m dets. length (check_violations np m dets) = length (person_detections dets))
   \<and> (\<forall>dets p. p \<in> set dets \<and> class_name p = PERSON_CLASS \<and> degenerate (bbox p) \<longrightarrow>
         evaluate_person np 1 dets p \<in> set (check_violations np 1 dets)
         \<and> evaluate_person np 1 dets p =
             \<lparr>has_violation = True,
              violation_message = Some ''Missing PPE: helmet, gloves, vest, boots, goggles'',
              ppe_status = [(''helmet'', False), (''vest'', False), (''gloves'', False),
                            (''boots'', False), (''goggles'', False)],
              person_confidence = confidence p,
              person_bbox = bbox p\<rparr>)"
proof -
  have a: "\<forall>pb b. degenerate b \<longrightarrow> \<not> check_proximity np pb b default_threshold"
    using proximity_degenerate_det default_threshold_nonneg by blast
  have b: "\<forall>m xs d ys. degenerate (bbox d) \<and> class_name d \<noteq> PERSON_CLASS \<longrightarrow>
         check_violations np m (xs @ d # ys) = check_violations np m (xs @ ys)"
    using check_violations_drop by blast
  have c: "\<forall>m dets. length (check_violations np m dets) = length (person_detections dets)"
    by (simp add: check_violations_def)
  have d: "\<forall>dets p. p \<in> set dets \<and> class_name p = PERSON_CLASS \<and> degenerate (bbox p) \<longrightarrow>
         evaluate_person np 1 dets p \<in> set (check_violations np 1 dets)
         \<and> evaluate_person np 1 dets p =
             \<lparr>has_violation = True,
              violation_message = Some ''Missing PPE: helmet, gloves, vest, boots, goggles'',
              ppe_status = [(''helmet'', False), (''vest'', False), (''gloves'', False),
                            (''boots'', False), (''goggles'', False)],
              person_confidence = confidence p,
              person_bbox = bbox p\<rparr>"
  proof (intro allI impI conjI)
    fix dets :: "detection list" and p :: detection
    assume h: "p \<in> set dets \<and> class_name p = PERSON_CLASS \<and> degenerate (bbox p)"
    then show "evaluate_person np 1 dets p \<in> set (check_violations np 1 dets)"
      by (simp add: check_violations_def person_detections_def)
    from h show "evaluate_person np 1 dets p =
             \<lparr>has_violation = True,
              violation_message = Some ''Missing PPE: helmet, gloves, vest, boots, goggles'',
              ppe_status = [(''helmet'', False), (''vest'', False), (''gloves'', False),
                            (''boots'', False), (''goggles'', False)],
              person_confidence = confidence p,
              person_bbox = bbox p\<rparr>"
      by (simp add: evaluate_degenerate_person)
  qed
  from a b c d show ?thesis by (intro conjI)
qed

theorem C9_degenerate_boxes_witness:
  "degenerate (20, 20, 20, 60)
   \<and> \<not> check_proximity Nep50 (0, 0, 100, 200) (20, 20, 20, 60) default_threshold
   \<and> check_violations Nep50 1
       [\<lparr>class_name = ''Person'', confidence = 9 / 10, bbox = (0, 0, 100, 200)\<rparr>,
        \<lparr>class_name = ''no_helmet'', confidence = 7 / 10, bbox = (20, 20, 20, 60)\<rparr>,
        \<lparr>class_name = ''helmet'', confidence = 8 / 10, bbox = (0, 0, 100, 100)\<rparr>]
     = check_violations Nep50 1
       [\<lparr>class_name = ''Person'', confidence = 9 / 10, bbox = (0, 0, 100, 200)\<rparr>,
        \<lparr>class_name = ''helmet'', confidence = 8 / 10, bbox = (0, 0, 100, 100)\<rparr>]
   \<and> has_violation (evaluate_person Nep50 1
        [\<lparr>class_name = ''Person'', confidence = 9 / 10, bbox = (10, 10, 10, 50)\<rparr>]
        \<lparr>class_name = ''Person'', confidence = 9 / 10, bbox = (10, 10, 10, 50)\<rparr>)"
proof -
  let ?p = "\<lparr>class_name = ''Person'', confidence = 9 / 10, bbox = (0, 0, 100, 200)\<rparr>"
  let ?d = "\<lparr>class_name = ''no_helmet'', confidence = 7 / 10, bbox = (20, 20, 20, 60)\<rparr>"
  let ?h = "\<lparr>class_name = ''helmet'', confidence = 8 / 10, bbox = (0, 0, 100, 100)\<rparr>"
  let ?q = "\<lparr>class_name = ''Person'', confidence = 9 / 10, bbox = (10, 10, 10, 50)\<rparr>"
  have 1: "degenerate (20, 20, 20, 60)" by simp
  have 2: "degenerate (bbox ?d) \<and> class_name ?d \<noteq> PERSON_CLASS"
    by (simp add: PERSON_CLASS_def)
  have 3: "?q \<in> set [?q] \<and> class_name ?q = PERSON_CLASS \<and> degenerate (bbox ?q)"
    by (simp add: PERSON_CLASS_def)
  from C9_degenerate_boxes [where np = Nep50, THEN conjunct1, rule_format, OF 1]
  have 4: "\<not> check_proximity Nep50 (0, 0, 100, 200) (20, 20, 20, 60) default_threshold" .
  from C9_degenerate_boxes
         [where np = Nep50, THEN conjunct2, THEN conjunct1, rule_format, OF 2, of 1 "[?p]" "[?h]"]
  have 5: "check_violations Nep50 1 [?p, ?d, ?h] = check_violations Nep50 1 [?p, ?h]" by simp
  from C9_degenerate_boxes [where np = Nep50, THEN conjunct2, THEN conjunct2, THEN conjunct2, rule_format, OF 3]
  have 6: "has_violation (evaluate_person Nep50 1 [?q] ?q)" by simp
  from 1 4 5 6 show ?thesis by (intro conjI)
qed

section \<open>Properties of the session ledger\<close>

lemma register_all_length:
  "register_all cs t = (ids, t') \<Longrightarrow> length ids = length cs"
  by (induction cs arbitrary: t ids t') (auto split: prod.splits)

lemma match_loop_length:
  "match_loop tracked cs used t = Some (ids, used', t') \<Longrightarrow> length ids = length cs"
proof (induction cs arbitrary: used t ids used' t')
  case Nil
  then show ?case by simp
next
  case (Cons c cs)
  then show ?case
    by (auto split: option.splits prod.splits)
qed

lemma update_length:
  "update t bs = Some (ids, t') \<Longrightarrow> length ids = length bs"
  unfolding update_def Let_def
  by (auto split: if_splits option.splits prod.splits
        dest: match_loop_length register_all_length)

lemma assign_person_ids_length:
  "assign_person_ids trk bs = Some (ids, trk') \<Longrightarrow> length ids = length bs"
  unfolding assign_person_ids_def
  by (auto split: option.splits if_splits dest: update_length)

lemma frame_tracking_length:
  "frame_tracking s env = Some (ids, trk) \<Longrightarrow> length ids = length (frame_results s env)"
  unfolding frame_tracking_def by (drule assign_person_ids_length) simp

lemma send_email_ledger:
  "logged_person_ids (send_email_notification s m now) = logged_person_ids s"
  "session_total_people (send_email_notification s m now) = session_total_people s"
  "session_compliant (send_email_notification s m now) = session_compliant s"
  "session_violations (send_email_notification s m now) = session_violations s"
  "db (send_email_notification s m now) = db s"
  "person_tracker (send_email_notification s m now) = person_tracker s"
  by (simp_all add: send_email_notification_def send_email_async_def Let_def
        split: option.splits)

lemma trigger_alert_ledger:
  "logged_person_ids (trigger_alert s m now ne) = logged_person_ids s"
  "session_total_people (trigger_alert s m now ne) = session_total_people s"
  "session_compliant (trigger_alert s m now ne) = session_compliant s"
  "session_violations (trigger_alert s m now ne) = session_violations s"
  "db (trigger_alert s m now ne) = db s"
  "person_tracker (trigger_alert s m now ne) = person_tracker s"
  by (simp_all add: trigger_alert_def Let_def send_email_ledger)

lemma trigger_alert_alert_state:
  "alert_state (trigger_alert
      (s\<lparr>logged_person_ids := A, session_total_people := B, session_violations := C, db := D\<rparr>)
      m now ne) = alert_state (trigger_alert s m now ne)"
  by (simp add: alert_state_def trigger_alert_def send_email_notification_def
        send_email_async_def Let_def split: option.splits)

lemma process_person_repeat:
  "person_id_at ids i \<in> logged_person_ids s \<Longrightarrow> process_person env ids s i v = (None, s)"
  by (simp add: process_person_def person_id_at_def)

lemma write_detection_ledger:
  "logged_person_ids (snd (write_detection s f pid v)) = logged_person_ids s"
  "session_total_people (snd (write_detection s f pid v)) = session_total_people s"
  "session_compliant (snd (write_detection s f pid v)) = session_compliant s"
  "session_violations (snd (write_detection s f pid v)) = session_violations s"
  by (simp_all add: write_detection_def log_detection_def)

lemma process_person_ledger:
  assumes "person_id_at ids i \<notin> logged_person_ids s" and "s' = snd (process_person env ids s i v)"
  shows "logged_person_ids s' = insert (person_id_at ids i) (logged_person_ids s)"
    and "session_total_people s' = session_total_people s + 1"
    and "session_violations s' = session_violations s + (if has_violation v then 1 else 0)"
    and "session_compliant s' = session_compliant s + (if has_violation v then 0 else 1)"
  using assms
  by (simp_all add: process_person_def person_id_at_def Let_def log_violation_def
        write_detection_ledger trigger_alert_ledger split: sum.splits)

lemma process_person_inv:
  assumes "ledger_inv s"
  shows "ledger_inv (snd (process_person env ids s i v))"
proof (cases "person_id_at ids i \<in> logged_person_ids s")
  case True
  then show ?thesis using assms by (simp add: process_person_repeat)
next
  case False
  note l = process_person_ledger [OF False refl, of env v]
  have "card (insert (person_id_at ids i) (logged_person_ids s)) = card (logged_person_ids s) + 1"
    using False assms by (simp add: ledger_inv_def)
  then show ?thesis using assms unfolding ledger_inv_def by (simp add: l)
qed

lemma process_loop_inv:
  "ledger_inv s \<Longrightarrow> ledger_inv (snd (process_loop env ids s i vs))"
proof (induction vs arbitrary: s i)
  case Nil
  then show ?case by simp
next
  case (Cons v vs)
  from process_person_inv [OF Cons.prems, of env ids i v]
  have p: "ledger_inv (snd (process_person env ids s i v))" .
  show ?case
  proof (cases "process_person env ids s i v")
    case (Pair e s')
    with p have s': "ledger_inv s'" by simp
    show ?thesis
    proof (cases e)
      case None
      with Pair Cons.IH [OF s'] show ?thesis by simp
    next
      case (Some a)
      with Pair s' show ?thesis by simp
    qed
  qed
qed

lemma ledger_inv_cong:
  "logged_person_ids s' = logged_person_ids s \<Longrightarrow>
   session_total_people s' = session_total_people s \<Longrightarrow>
   session_compliant s' = session_compliant s \<Longrightarrow>
   session_violations s' = session_violations s \<Longrightarrow>
   ledger_inv s' = ledger_inv s"
  by (simp add: ledger_inv_def)

lemma stop_detection_ledger:
  "logged_person_ids (snd (stop_detection s d f)) = logged_person_ids s"
  "session_total_people (snd (stop_detection s d f)) = session_total_people s"
  "session_compliant (snd (stop_detection s d f)) = session_compliant s"
  "session_violations (snd (stop_detection s d f)) = session_violations s"
  by (simp_all add: stop_detection_def update_daily_stats_def Let_def)

lemma update_frame_inv:
  assumes "ledger_inv s"
  shows "ledger_inv (snd (update_frame s env))"
proof -
  have a: "ledger_inv (snd (stop_detection s d f))" for d f
    using assms by (simp add: ledger_inv_cong [of "snd (stop_detection s d f)" s] stop_detection_ledger)
  have b: "ledger_inv (s\<lparr>frame_count := n\<rparr>)" for n
    using assms by (simp add: ledger_inv_def)
  have c: "ledger_inv (s\<lparr>frame_count := n, person_tracker := trk, current_frame := f\<rparr>)" for n trk f
    using assms by (simp add: ledger_inv_def)
  show ?thesis
    unfolding update_frame_def Let_def
    by (auto simp: a b intro: process_loop_inv c split: option.splits)
qed

lemma start_detection_inv: "ledger_inv (start_detection s True)"
  by (simp add: start_detection_def ledger_inv_def)

lemma run_frames_inv: "ledger_inv s \<Longrightarrow> ledger_inv (run_frames s envs)"
  by (induction envs arbitrary: s) (auto intro: update_frame_inv)

lemma frame_tracking_frame_count [simp]:
  "frame_tracking (s\<lparr>frame_count := n\<rparr>) env = frame_tracking s env"
  "frame_results (s\<lparr>frame_count := n\<rparr>) env = frame_results s env"
  by (simp_all add: frame_tracking_def frame_results_def)

lemma process_person_logged:
  "logged_person_ids (snd (process_person env ids s i v))
     \<subseteq> insert (person_id_at ids i) (logged_person_ids s)"
proof (cases "person_id_at ids i \<in> logged_person_ids s")
  case True
  then show ?thesis by (auto simp: process_person_repeat)
next
  case False
  from process_person_ledger(1) [OF False refl] show ?thesis by simp
qed

lemma process_loop_logged:
  "i + length vs \<le> length ids \<Longrightarrow>
     logged_person_ids (snd (process_loop env ids s i vs)) \<subseteq> logged_person_ids s \<union> set ids"
proof (induction vs arbitrary: s i)
  case Nil
  then show ?case by simp
next
  case (Cons v vs)
  from Cons.prems have i: "i < length ids" by simp
  then have pid: "person_id_at ids i \<in> set ids" by (simp add: person_id_at_def)
  have p: "logged_person_ids (snd (process_person env ids s i v)) \<subseteq> logged_person_ids s \<union> set ids"
    using process_person_logged [of env ids s i v] pid by auto
  show ?case
  proof (cases "process_person env ids s i v")
    case (Pair e s')
    show ?thesis
    proof (cases e)
      case None
      from Cons.prems have "Suc i + length vs \<le> length ids" by simp
      from Cons.IH [OF this, of s'] p Pair None show ?thesis by auto
    next
      case (Some a)
      with Pair p show ?thesis by simp
    qed
  qed
qed

lemma update_frame_logged:
  "logged_person_ids (snd (update_frame s env)) \<subseteq> logged_person_ids s \<union> frame_ids s env"
proof (cases "ret env \<and> frame_nonempty env")
  case False
  then show ?thesis
    by (auto simp: update_frame_def Let_def stop_detection_ledger)
next
  case True
  show ?thesis
  proof (cases "frame_tracking s env")
    case None
    with True show ?thesis by (simp add: update_frame_def Let_def)
  next
    case (Some r)
    obtain ids trk where r: "r = (ids, trk)" by (cases r)
    from frame_tracking_length Some r
    have "0 + length (frame_results s env) \<le> length ids" by simp
    from process_loop_logged [OF this, of env
        "s\<lparr>frame_count := Suc (frame_count s), person_tracker := trk,
           current_frame := Some (Suc (frame_count s))\<rparr>"]
    show ?thesis using True Some r
      by (simp add: update_frame_def Let_def frame_ids_def)
  qed
qed

lemma run_frames_logged:
  "logged_person_ids (run_frames s envs) \<subseteq> logged_person_ids s \<union> produced_ids s envs"
proof (induction envs arbitrary: s)
  case Nil
  then show ?case by simp
next
  case (Cons env envs)
  from Cons.IH [of "snd (update_frame s env)"] update_frame_logged [of s env]
  show ?case by auto
qed

lemma finite_frame_ids: "finite (frame_ids s env)"
  by (simp add: frame_ids_def split: option.splits)

lemma finite_produced_ids: "finite (produced_ids s envs)"
  by (induction envs arbitrary: s) (simp_all add: finite_frame_ids)

lemma rows_logged_once_refl:
  "logged_person_ids s = {} \<Longrightarrow> rows_logged_once s s"
  by (simp add: rows_logged_once_def detections_since_def violations_since_def)

lemma rows_logged_once_cong:
  "db s' = db s \<Longrightarrow> logged_person_ids s' = logged_person_ids s \<Longrightarrow>
     rows_logged_once s0 s' = rows_logged_once s0 s"
  by (simp add: rows_logged_once_def detections_since_def violations_since_def)

lemma rows_logged_once_insert:
  "rows_logged_once s0 s \<Longrightarrow> db s' = db s \<Longrightarrow>
   logged_person_ids s' = insert pid (logged_person_ids s) \<Longrightarrow> rows_logged_once s0 s'"
  by (auto simp: rows_logged_once_def detections_since_def violations_since_def)

lemma rows_logged_once_upd:
  "rows_logged_once s0 (s\<lparr>session_total_people := a\<rparr>) = rows_logged_once s0 s"
  "rows_logged_once s0 (s\<lparr>session_compliant := a\<rparr>) = rows_logged_once s0 s"
  "rows_logged_once s0 (s\<lparr>session_violations := a\<rparr>) = rows_logged_once s0 s"
  "rows_logged_once s0 (s\<lparr>frame_count := n\<rparr>) = rows_logged_once s0 s"
  "rows_logged_once s0 (s\<lparr>person_tracker := trk\<rparr>) = rows_logged_once s0 s"
  "rows_logged_once s0 (s\<lparr>current_frame := fr\<rparr>) = rows_logged_once s0 s"
  by (simp_all add: rows_logged_once_def detections_since_def violations_since_def)

lemma rows_logged_once_trigger:
  "rows_logged_once s0 (trigger_alert s m t te) = rows_logged_once s0 s"
  by (rule rows_logged_once_cong) (simp_all add: trigger_alert_ledger)

lemma rows_logged_once_violation:
  assumes "rows_logged_once s0 s" and "pid \<in> logged_person_ids s"
    and "pid \<notin> v_person_id ` set (violations_since s0 s)"
    and "log_violation (db s) f z m pid c = Inr d"
  shows "rows_logged_once s0 (s\<lparr>db := d\<rparr>)"
  using assms
  by (auto simp: rows_logged_once_def detections_since_def violations_since_def
        log_violation_def split: if_splits; blast)

lemma rows_logged_once_detection:
  assumes "rows_logged_once s0 s" and "pid \<in> logged_person_ids s"
    and "pid \<notin> d_person_id ` set (detections_since s0 s)"
    and "log_detection (db s) f z pid st c = Inr d"
  shows "rows_logged_once s0 (s\<lparr>db := d\<rparr>)"
  using assms
  by (auto simp: rows_logged_once_def detections_since_def violations_since_def
        log_detection_def split: if_splits; blast)

lemma write_detection_rows:
  assumes "rows_logged_once s0 s" and "pid \<in> logged_person_ids s"
    and "pid \<notin> d_person_id ` set (detections_since s0 s)"
  shows "rows_logged_once s0 (snd (write_detection s f pid v))"
proof (cases "log_detection (db s) f CAMERA_ZONE_NAME pid (ppe_status v) (\<not> has_violation v)")
  case (Inl e)
  then show ?thesis using assms(1) by (simp add: write_detection_def)
next
  case (Inr d)
  from rows_logged_once_detection [OF assms Inr] Inr
  show ?thesis by (simp add: write_detection_def)
qed

lemma process_person_rows:
  assumes "rows_logged_once s0 s"
  shows "rows_logged_once s0 (snd (process_person env ids s i v))"
proof (cases "person_id_at ids i \<in> logged_person_ids s")
  case True
  then show ?thesis using assms by (simp add: process_person_repeat)
next
  case False
  let ?pid = "person_id_at ids i"
  let ?s1 = "s\<lparr>logged_person_ids := insert ?pid (logged_person_ids s),
               session_total_people := session_total_people s + 1\<rparr>"
  have fresh_d: "?pid \<notin> d_person_id ` set (detections_since s0 s)"
    and fresh_v: "?pid \<notin> v_person_id ` set (violations_since s0 s)"
    using assms False by (auto simp: rows_logged_once_def)
  have r1: "rows_logged_once s0 ?s1"
    using assms by (rule rows_logged_once_insert) simp_all
  show ?thesis
  proof (cases "has_violation v")
    case nv: False
    let ?s2 = "?s1\<lparr>session_compliant := session_compliant ?s1 + 1\<rparr>"
    have r2: "rows_logged_once s0 ?s2"
      using r1 by (simp add: rows_logged_once_upd)
    have "rows_logged_once s0 (snd (write_detection ?s2 (storage_fails env i LogDetection) ?pid v))"
      using r2 fresh_d by (intro write_detection_rows) (simp_all add: detections_since_def)
    then show ?thesis using False nv
      by (simp add: process_person_def person_id_at_def Let_def)
  next
    case hv: True
    let ?s2 = "?s1\<lparr>session_violations := session_violations ?s1 + 1\<rparr>"
    have r2: "rows_logged_once s0 ?s2"
      using r1 by (simp add: rows_logged_once_upd)
    show ?thesis
    proof (cases "log_violation (db ?s2) (storage_fails env i LogViolation) CAMERA_ZONE_NAME
                    (violation_message v) ?pid (person_confidence v)")
      case (Inl e)
      then show ?thesis using False hv r2
        by (simp add: process_person_def person_id_at_def Let_def)
    next
      case (Inr d)
      let ?s3 = "trigger_alert (?s2\<lparr>db := d\<rparr>) (violation_message v)
                   (alert_clock env i) (email_clock env i)"
      have "rows_logged_once s0 (?s2\<lparr>db := d\<rparr>)"
        using r2 _ _ Inr by (rule rows_logged_once_violation)
          (use fresh_v in \<open>simp_all add: violations_since_def\<close>)
      then have r3: "rows_logged_once s0 ?s3"
        by (simp only: rows_logged_once_trigger)
      have dd: "detections d = detections (db s)"
        using Inr by (auto simp: log_violation_def split: if_splits)
      have "rows_logged_once s0 (snd (write_detection ?s3 (storage_fails env i LogDetection) ?pid v))"
        using r3 fresh_d
        by (intro write_detection_rows)
           (simp_all add: detections_since_def trigger_alert_ledger dd)
      then show ?thesis using False hv Inr
        by (simp add: process_person_def person_id_at_def Let_def)
    qed
  qed
qed

lemma process_loop_rows:
  "rows_logged_once s0 s \<Longrightarrow> rows_logged_once s0 (snd (process_loop env ids s i vs))"
proof (induction vs arbitrary: s i)
  case Nil
  then show ?case by simp
next
  case (Cons v vs)
  from process_person_rows [OF Cons.prems, of env ids i v]
  have p: "rows_logged_once s0 (snd (process_person env ids s i v))" .
  show ?case
  proof (cases "process_person env ids s i v")
    case (Pair e s')
    with p have s': "rows_logged_once s0 s'" by simp
    show ?thesis
    proof (cases e)
      case None
      with Pair Cons.IH [OF s'] show ?thesis by simp
    next
      case (Some a)
      with Pair s' show ?thesis by simp
    qed
  qed
qed

lemma stop_detection_rows:
  "rows_logged_once s0 (snd (stop_detection s d f)) = rows_logged_once s0 s"
  by (simp add: stop_detection_def update_daily_stats_def Let_def rows_logged_once_def
        detections_since_def violations_since_def)

lemma update_frame_rows:
  assumes "rows_logged_once s0 s"
  shows "rows_logged_once s0 (snd (update_frame s env))"
proof -
  have c: "rows_logged_once s0
             (s\<lparr>frame_count := n, person_tracker := trk, current_frame := f\<rparr>)" for n trk f
    using assms by (simp add: rows_logged_once_upd)
  show ?thesis
    unfolding update_frame_def Let_def
    using assms
    by (auto simp: stop_detection_rows rows_logged_once_upd intro: process_loop_rows c
          split: option.splits)
qed

lemma run_frames_rows:
  "rows_logged_once s0 s \<Longrightarrow> rows_logged_once s0 (run_frames s envs)"
  by (induction envs arbitrary: s) (auto intro: update_frame_rows)

lemma start_detection_logged: "logged_person_ids (start_detection s True) = {}"
  by (simp add: start_detection_def)

lemma session_total_bound:
  "session_total_people (run_frames (start_detection s True) envs)
     \<le> int (card (produced_ids (start_detection s True) envs))"
proof -
  let ?s0 = "start_detection s True"
  have "ledger_inv (run_frames ?s0 envs)"
    by (intro run_frames_inv start_detection_inv)
  then have t: "session_total_people (run_frames ?s0 envs)
                  = int (card (logged_person_ids (run_frames ?s0 envs)))"
    by (simp add: ledger_inv_def)
  have "logged_person_ids (run_frames ?s0 envs) \<subseteq> produced_ids ?s0 envs"
    using run_frames_logged [of ?s0 envs] by (simp add: start_detection_logged)
  then have "card (logged_person_ids (run_frames ?s0 envs)) \<le> card (produced_ids ?s0 envs)"
    by (intro card_mono finite_produced_ids)
  with t show ?thesis by simp
qed

lemma write_detection_alert_state:
  "alert_state (snd (write_detection s f pid v)) = alert_state s"
  by (simp add: write_detection_def log_detection_def alert_state_def)

lemma alert_state_upd:
  "alert_state (s\<lparr>logged_person_ids := A\<rparr>) = alert_state s"
  "alert_state (s\<lparr>session_total_people := a\<rparr>) = alert_state s"
  "alert_state (s\<lparr>session_compliant := a\<rparr>) = alert_state s"
  "alert_state (s\<lparr>session_violations := a\<rparr>) = alert_state s"
  by (simp_all add: alert_state_def)

lemma process_person_first:
  assumes "person_id_at ids i \<notin> logged_person_ids s"
    and "\<not> storage_fails env i LogViolation" and "\<not> storage_fails env i LogDetection"
    and "s' = snd (process_person env ids s i v)"
  shows "fst (process_person env ids s i v) = None"
    and "\<exists>r. detections (db s') = detections (db s) @ [r] \<and> d_person_id r = person_id_at ids i
              \<and> d_is_compliant r = (\<not> has_violation v)"
    and "violations (db s') =
           (if has_violation v
            then violations (db s) @
                   [\<lparr>v_zone_name = CAMERA_ZONE_NAME, v_violation_type = violation_message v,
                     v_person_id = person_id_at ids i, v_confidence = person_confidence v\<rparr>]
            else violations (db s))"
    and "alert_state s' =
           alert_state (if has_violation v
                        then trigger_alert s (violation_message v) (alert_clock env i)
                               (email_clock env i)
                        else s)"
proof -
  show "fst (process_person env ids s i v) = None"
    and "\<exists>r. detections (db s') = detections (db s) @ [r] \<and> d_person_id r = person_id_at ids i
              \<and> d_is_compliant r = (\<not> has_violation v)"
    and "violations (db s') =
           (if has_violation v
            then violations (db s) @
                   [\<lparr>v_zone_name = CAMERA_ZONE_NAME, v_violation_type = violation_message v,
                     v_person_id = person_id_at ids i, v_confidence = person_confidence v\<rparr>]
            else violations (db s))"
    using assms
    by (simp_all add: process_person_def person_id_at_def Let_def log_violation_def
          write_detection_def log_detection_def trigger_alert_ledger)
  show "alert_state s' =
           alert_state (if has_violation v
                        then trigger_alert s (violation_message v) (alert_clock env i)
                               (email_clock env i)
                        else s)"
    using assms
    by (simp add: process_person_def person_id_at_def Let_def log_violation_def
          write_detection_alert_state trigger_alert_alert_state alert_state_upd)
qed

lemma process_person_alert:
  assumes "person_id_at ids i \<notin> logged_person_ids s"
    and "\<not> storage_fails env i LogViolation" and "\<not> storage_fails env i LogDetection"
    and "s' = snd (process_person env ids s i v)"
  shows "has_violation v \<and> \<not> alert_suppressed s (alert_clock env i) \<longrightarrow>
           last_alert_time s' = Some (alert_clock env i)
           \<and> alerts_fired s' = alerts_fired s + 1
           \<and> audio_plays s' = (if audio_enabled s then audio_plays s + 1 else audio_plays s)"
    and "has_violation v \<and> alert_suppressed s (alert_clock env i) \<longrightarrow>
           alert_state s' = alert_state s"
    and "\<not> has_violation v \<longrightarrow> alert_state s' = alert_state s"
proof -
  let ?t = "trigger_alert s (violation_message v) (alert_clock env i) (email_clock env i)"
  note a = process_person_first(4) [OF assms]
  show "has_violation v \<and> \<not> alert_suppressed s (alert_clock env i) \<longrightarrow>
           last_alert_time s' = Some (alert_clock env i)
           \<and> alerts_fired s' = alerts_fired s + 1
           \<and> audio_plays s' = (if audio_enabled s then audio_plays s + 1 else audio_plays s)"
  proof (intro impI)
    assume h: "has_violation v \<and> \<not> alert_suppressed s (alert_clock env i)"
    with a have "alert_state s' = alert_state ?t" by simp
    then have e: "last_alert_time s' = last_alert_time ?t" "alert_log s' = alert_log ?t"
      "audio_plays s' = audio_plays ?t"
      by (simp_all add: alert_state_def)
    from e(2) have f: "alerts_fired s' = alerts_fired ?t" by (simp add: alerts_fired_def)
    from h have "\<not> alert_suppressed s (alert_clock env i)" by simp
    from trigger_alert_fires [OF this, where m = "violation_message v" and ne = "email_clock env i"]
    show "last_alert_time s' = Some (alert_clock env i)
           \<and> alerts_fired s' = alerts_fired s + 1
           \<and> audio_plays s' = (if audio_enabled s then audio_plays s + 1 else audio_plays s)"
      by (simp only: e(1,3) f)
  qed
  show "has_violation v \<and> alert_suppressed s (alert_clock env i) \<longrightarrow>
           alert_state s' = alert_state s"
    using a by (simp add: trigger_alert_suppressed)
  show "\<not> has_violation v \<longrightarrow> alert_state s' = alert_state s"
    using a by simp
qed

lemma distance_less_iff:
  "0 \<le> m \<Longrightarrow> calculate_distance a b < m \<longleftrightarrow>
     real_of_int ((fst a - fst b)\<^sup>2 + (snd a - snd b)\<^sup>2) < m\<^sup>2"
  unfolding calculate_distance_def
  by (metis abs_of_nonneg real_sqrt_abs real_sqrt_less_iff)

lemma distance_less_distance_iff:
  "calculate_distance a b < calculate_distance a c \<longleftrightarrow>
     (fst a - fst b)\<^sup>2 + (snd a - snd b)\<^sup>2 < (fst a - fst c)\<^sup>2 + (snd a - snd c)\<^sup>2"
  unfolding calculate_distance_def by (simp only: real_sqrt_less_iff of_int_less_iff)

lemmas run_defs =
  update_frame_def frame_tracking_def frame_results_def assign_person_ids_def
  process_person_def write_detection_def log_detection_def log_violation_def
  trigger_alert_def send_email_notification_def send_email_async_def
  start_detection_def stop_detection_def update_daily_stats_def
  PPEDetectionApp_def empty_database_def frame_of_def bare_person_def two_persons_def
  update_def register_def reset_def PersonTracker_def dict_keys_def py_int_def
  PERSON_TRACKING_ENABLED_def TRACKING_DISTANCE_THRESHOLD_def TRACKING_MEMORY_FRAMES_def
  VIOLATION_MODE_def CAMERA_ZONE_NAME_def ALERT_COOLDOWN_def EMAIL_COOLDOWN_def
  distance_less_iff distance_less_distance_iff Let_def

text \<open>
  C10. The ledger is consistent (the total is the sum of the compliant and the violating
  persons and the number of logged identities) after \<open>start_detection\<close>; the body of the
  frame loop keeps it consistent for a first and for a repeated observation, whether its
  database calls succeed or raise, and so do \<open>update_frame\<close> and every sequence of
  frames of a session.
\<close>

theorem C10_ledger_consistent:
  "(\<forall>s. ledger_inv (start_detection s True))
   \<and> (\<forall>s env ids i v. ledger_inv s \<longrightarrow> ledger_inv (snd (process_person env ids s i v)))
   \<and> (\<forall>s env. ledger_inv s \<longrightarrow> ledger_inv (snd (update_frame s env)))
   \<and> (\<forall>s envs.
         session_total_people (run_frames (start_detection s True) envs)
           = session_compliant (run_frames (start_detection s True) envs)
             + session_violations (run_frames (start_detection s True) envs)
         \<and> session_total_people (run_frames (start_detection s True) envs)
           = int (card (logged_person_ids (run_frames (start_detection s True) envs))))"
proof -
  have a: "\<forall>s. ledger_inv (start_detection s True)"
    by (simp add: start_detection_inv)
  have b: "\<forall>s env ids i v. ledger_inv s \<longrightarrow> ledger_inv (snd (process_person env ids s i v))"
    by (simp add: process_person_inv)
  have c: "\<forall>s env. ledger_inv s \<longrightarrow> ledger_inv (snd (update_frame s env))"
    by (simp add: update_frame_inv)
  have "ledger_inv (run_frames (start_detection s True) envs)" for s envs
    by (intro run_frames_inv start_detection_inv)
  then have "session_total_people (run_frames (start_detection s True) envs)
           = session_compliant (run_frames (start_detection s True) envs)
             + session_violations (run_frames (start_detection s True) envs)
         \<and> session_total_people (run_frames (start_detection s True) envs)
           = int (card (logged_person_ids (run_frames (start_detection s True) envs)))"
    for s envs unfolding ledger_inv_def by blast
  then have d: "\<forall>s envs.
         session_total_people (run_frames (start_detection s True) envs)
           = session_compliant (run_frames (start_detection s True) envs)
             + session_violations (run_frames (start_detection s True) envs)
         \<and> session_total_people (run_frames (start_detection s True) envs)
           = int (card (logged_person_ids (run_frames (start_detection s True) envs)))"
    by blast
  from a b c d show ?thesis by (intro conjI)
qed

theorem C10_ledger_consistent_witness:
  "ledger_inv (start_detection (PPEDetectionApp empty_database True True) True)
   \<and> ledger_inv (snd (update_frame (start_detection (PPEDetectionApp empty_database True True) True)
        (frame_of bare_person True 0)))
   \<and> session_total_people (snd (update_frame
        (start_detection (PPEDetectionApp empty_database True True) True)
        (frame_of bare_person True 0))) = 1
   \<and> session_violations (snd (update_frame
        (start_detection (PPEDetectionApp empty_database True True) True)
        (frame_of bare_person True 0))) = 1
   \<and> logged_person_ids (snd (update_frame
        (start_detection (PPEDetectionApp empty_database True True) True)
        (frame_of bare_person True 0))) = {1}"
proof -
  let ?s0 = "start_detection (PPEDetectionApp empty_database True True) True"
  note a = C10_ledger_consistent [THEN conjunct1, rule_format, of "PPEDetectionApp empty_database True True"]
  note c = C10_ledger_consistent [THEN conjunct2, THEN conjunct2, THEN conjunct1, rule_format,
              OF a, of "frame_of bare_person True 0"]
  have e: "session_total_people (snd (update_frame ?s0 (frame_of bare_person True 0))) = 1"
     "session_violations (snd (update_frame ?s0 (frame_of bare_person True 0))) = 1"
     "logged_person_ids (snd (update_frame ?s0 (frame_of bare_person True 0))) = {1}"
    by (simp_all add: run_defs eval_defs)
  from a c e show ?thesis by (intro conjI)
qed

text \<open>
  C1, as stated, fails in the alert: a first observation that is a violation raises an
  alert only when the alert channel is not in its cooldown. In the first frame of a
  session with two persons without equipment and a working storage, both identities are
  logged and counted and each gets one violation row and one detection row, but only one
  alert is raised: one alert line, one sound and one e-mail job. The second person is
  inside the cooldown that the alert of the first one started.
\<close>

theorem C1_second_violator_raises_no_alert:
  "fst (update_frame (start_detection (PPEDetectionApp empty_database True True) True)
          (frame_of two_persons False 0)) = None
   \<and> logged_person_ids (snd (update_frame
          (start_detection (PPEDetectionApp empty_database True True) True)
          (frame_of two_persons False 0))) = {1, 2}
   \<and> session_violations (snd (update_frame
          (start_detection (PPEDetectionApp empty_database True True) True)
          (frame_of two_persons False 0))) = 2
   \<and> map v_person_id (violations (db (snd (update_frame
          (start_detection (PPEDetectionApp empty_database True True) True)
          (frame_of two_persons False 0))))) = [1, 2]
   \<and> map d_person_id (detections (db (snd (update_frame
          (start_detection (PPEDetectionApp empty_database True True) True)
          (frame_of two_persons False 0))))) = [1, 2]
   \<and> alerts_fired (snd (update_frame
          (start_detection (PPEDetectionApp empty_database True True) True)
          (frame_of two_persons False 0))) = 1
   \<and> audio_plays (snd (update_frame
          (start_detection (PPEDetectionApp empty_database True True) True)
          (frame_of two_persons False 0))) = 1
   \<and> length (email_jobs (snd (update_frame
          (start_detection (PPEDetectionApp empty_database True True) True)
          (frame_of two_persons False 0)))) = 1"
proof -
  let ?r = "update_frame (start_detection (PPEDetectionApp empty_database True True) True)
              (frame_of two_persons False 0)"
  have 1: "fst ?r = None" by (simp add: run_defs eval_defs)
  have 2: "logged_person_ids (snd ?r) = {1, 2}" by (simp add: run_defs eval_defs) auto
  have 3: "session_violations (snd ?r) = 2" by (simp add: run_defs eval_defs)
  have 4: "map v_person_id (violations (db (snd ?r))) = [1, 2]"
    by (simp add: run_defs eval_defs)
  have 5: "map d_person_id (detections (db (snd ?r))) = [1, 2]"
    by (simp add: run_defs eval_defs)
  have 6: "alerts_fired (snd ?r) = 1" by (simp add: run_defs eval_defs alerts_fired_def)
  have 7: "audio_plays (snd ?r) = 1" by (simp add: run_defs eval_defs)
  have 8: "length (email_jobs (snd ?r)) = 1" by (simp add: run_defs eval_defs)
  from 1 2 3 4 5 6 7 8 show ?thesis by (intro conjI)
qed

text \<open>
  C1, amended. An identity that is already logged changes nothing: the body of the frame
  loop returns the state as it was. On its first observation, with the storage working,
  the identity joins the logged set, the total and one of the two other counters go up by
  one, exactly one detection row of the identity is appended, and for a violation exactly
  one violation row is appended and \<open>trigger_alert\<close> is called once. That call raises an
  alert (the time of the last alert becomes the time of the call, one alert line is logged
  and, with sound enabled, one sound is played) when the alert channel is not in its
  cooldown, and changes nothing of the alert state when it is; an observation that is not
  a violation leaves the alert state as it was. In every session, started by
  \<open>start_detection\<close> and run over any frames, whether database calls fail or not, the
  total is the number of logged identities, every logged identity was returned by the
  tracker during the session, so the total does not exceed the number of distinct
  identities the tracker returned, and among the rows written during the session no
  identity has two detection rows or two violation rows.
\<close>

theorem C1_counted_and_logged_once:
  "(\<forall>env ids s i v. person_id_at ids i \<in> logged_person_ids s \<longrightarrow>
       process_person env ids s i v = (None, s))
   \<and> (\<forall>env ids s i v.
         person_id_at ids i \<notin> logged_person_ids s
         \<and> \<not> storage_fails env i LogViolation \<and> \<not> storage_fails env i LogDetection \<longrightarrow>
         fst (process_person env ids s i v) = None
         \<and> logged_person_ids (snd (process_person env ids s i v))
             = insert (person_id_at ids i) (logged_person_ids s)
         \<and> session_total_people (snd (process_person env ids s i v))
             = session_total_people s + 1
         \<and> session_violations (snd (process_person env ids s i v))
             = session_violations s + (if has_violation v then 1 else 0)
         \<and> session_compliant (snd (process_person env ids s i v))
             = session_compliant s + (if has_violation v then 0 else 1)
         \<and> (\<exists>r. detections (db (snd (process_person env ids s i v))) = detections (db s) @ [r]
                \<and> d_person_id r = person_id_at ids i
                \<and> d_is_compliant r = (\<not> has_violation v))
         \<and> violations (db (snd (process_person env ids s i v))) =
             (if has_violation v
              then violations (db s) @
                     [\<lparr>v_zone_name = CAMERA_ZONE_NAME, v_violation_type = violation_message v,
                       v_person_id = person_id_at ids i, v_confidence = person_confidence v\<rparr>]
              else violations (db s))
         \<and> alert_state (snd (process_person env ids s i v)) =
             alert_state (if has_violation v
                          then trigger_alert s (violation_message v) (alert_clock env i)
                                 (email_clock env i)
                          else s)
         \<and> (has_violation v \<and> \<not> alert_suppressed s (alert_clock env i) \<longrightarrow>
              last_alert_time (snd (process_person env ids s i v)) = Some (alert_clock env i)
              \<and> alerts_fired (snd (process_person env ids s i v)) = alerts_fired s + 1
              \<and> audio_plays (snd (process_person env ids s i v)) =
                  (if audio_enabled s then audio_plays s + 1 else audio_plays s))
         \<and> (has_violation v \<and> alert_suppressed s (alert_clock env i) \<longrightarrow>
              alert_state (snd (process_person env ids s i v)) = alert_state s)
         \<and> (\<not> has_violation v \<longrightarrow>
              alert_state (snd (process_person env ids s i v)) = alert_state s))
   \<and> (\<forall>s envs.
         session_total_people (run_frames (start_detection s True) envs)
           = int (card (logged_person_ids (run_frames (start_detection s True) envs)))
         \<and> logged_person_ids (run_frames (start_detection s True) envs)
             \<subseteq> produced_ids (start_detection s True) envs
         \<and> finite (produced_ids (start_detection s True) envs)
         \<and> session_total_people (run_frames (start_detection s True) envs)
             \<le> int (card (produced_ids (start_detection s True) envs))
         \<and> distinct (map d_person_id
               (detections_since (start_detection s True)
                  (run_frames (start_detection s True) envs)))
         \<and> distinct (map v_person_id
               (violations_since (start_detection s True)
                  (run_frames (start_detection s True) envs))))"
proof -
  have a: "\<forall>env ids s i v. person_id_at ids i \<in> logged_person_ids s \<longrightarrow>
       process_person env ids s i v = (None, s)"
    by (simp add: process_person_repeat)
  have b: "\<forall>env ids s i v.
         person_id_at ids i \<notin> logged_person_ids s
         \<and> \<not> storage_fails env i LogViolation \<and> \<not> storage_fails env i LogDetection \<longrightarrow>
         fst (process_person env ids s i v) = None
         \<and> logged_person_ids (snd (process_person env ids s i v))
             = insert (person_id_at ids i) (logged_person_ids s)
         \<and> session_total_people (snd (process_person env ids s i v))
             = session_total_people s + 1
         \<and> session_violations (snd (process_person env ids s i v))
             = session_violations s + (if has_violation v then 1 else 0)
         \<and> session_compliant (snd (process_person env ids s i v))
             = session_compliant s + (if has_violation v then 0 else 1)
         \<and> (\<exists>r. detections (db (snd (process_person env ids s i v))) = detections (db s) @ [r]
                \<and> d_person_id r = person_id_at ids i
                \<and> d_is_compliant r = (\<not> has_violation v))
         \<and> violations (db (snd (process_person env ids s i v))) =
             (if has_violation v
              then violations (db s) @
                     [\<lparr>v_zone_name = CAMERA_ZONE_NAME, v_violation_type = violation_message v,
                       v_person_id = person_id_at ids i, v_confidence = person_confidence v\<rparr>]
              else violations (db s))
         \<and> alert_state (snd (process_person env ids s i v)) =
             alert_state (if has_violation v
                          then trigger_alert s (violation_message v) (alert_clock env i)
                                 (email_clock env i)
                          else s)
         \<and> (has_violation v \<and> \<not> alert_suppressed s (alert_clock env i) \<longrightarrow>
              last_alert_time (snd (process_person env ids s i v)) = Some (alert_clock env i)
              \<and> alerts_fired (snd (process_person env ids s i v)) = alerts_fired s + 1
              \<and> audio_plays (snd (process_person env ids s i v)) =
                  (if audio_enabled s then audio_plays s + 1 else audio_plays s))
         \<and> (has_violation v \<and> alert_suppressed s (alert_clock env i) \<longrightarrow>
              alert_state (snd (process_person env ids s i v)) = alert_state s)
         \<and> (\<not> has_violation v \<longrightarrow>
              alert_state (snd (process_person env ids s i v)) = alert_state s)"
  proof (intro allI impI)
    fix env :: frame_env and ids :: "int list" and s :: app and i :: nat
      and v :: violation_result
    assume h: "person_id_at ids i \<notin> logged_person_ids s
         \<and> \<not> storage_fails env i LogViolation \<and> \<not> storage_fails env i LogDetection"
    then have h1: "person_id_at ids i \<notin> logged_person_ids s"
      and h2: "\<not> storage_fails env i LogViolation" and h3: "\<not> storage_fails env i LogDetection"
      by simp_all
    note l = process_person_ledger [OF h1 refl, of env v]
    note f = process_person_first [OF h1 h2 h3 refl, of v]
    note g = process_person_alert [OF h1 h2 h3 refl, of v]
    from l f g show "fst (process_person env ids s i v) = None
         \<and> logged_person_ids (snd (process_person env ids s i v))
             = insert (person_id_at ids i) (logged_person_ids s)
         \<and> session_total_people (snd (process_person env ids s i v))
             = session_total_people s + 1
         \<and> session_violations (snd (process_person env ids s i v))
             = session_violations s + (if has_violation v then 1 else 0)
         \<and> session_compliant (snd (process_person env ids s i v))
             = session_compliant s + (if has_violation v then 0 else 1)
         \<and> (\<exists>r. detections (db (snd (process_person env ids s i v))) = detections (db s) @ [r]
                \<and> d_person_id r = person_id_at ids i
                \<and> d_is_compliant r = (\<not> has_violation v))
         \<and> violations (db (snd (process_person env ids s i v))) =
             (if has_violation v
              then violations (db s) @
                     [\<lparr>v_zone_name = CAMERA_ZONE_NAME, v_violation_type = violation_message v,
                       v_person_id = person_id_at ids i, v_confidence = person_confidence v\<rparr>]
              else violations (db s))
         \<and> alert_state (snd (process_person env ids s i v)) =
             alert_state (if has_violation v
                          then trigger_alert s (violation_message v) (alert_clock env i)
                                 (email_clock env i)
                          else s)
         \<and> (has_violation v \<and> \<not> alert_suppressed s (alert_clock env i) \<longrightarrow>
              last_alert_time (snd (process_person env ids s i v)) = Some (alert_clock env i)
              \<and> alerts_fired (snd (process_person env ids s i v)) = alerts_fired s + 1
              \<and> audio_plays (snd (process_person env ids s i v)) =
                  (if audio_enabled s then audio_plays s + 1 else audio_plays s))
         \<and> (has_violation v \<and> alert_suppressed s (alert_clock env i) \<longrightarrow>
              alert_state (snd (process_person env ids s i v)) = alert_state s)
         \<and> (\<not> has_violation v \<longrightarrow>
              alert_state (snd (process_person env ids s i v)) = alert_state s)"
      by (intro conjI)
  qed
  have c: "session_total_people (run_frames (start_detection s True) envs)
           = int (card (logged_person_ids (run_frames (start_detection s True) envs)))
         \<and> logged_person_ids (run_frames (start_detection s True) envs)
             \<subseteq> produced_ids (start_detection s True) envs
         \<and> finite (produced_ids (start_detection s True) envs)
         \<and> session_total_people (run_frames (start_detection s True) envs)
             \<le> int (card (produced_ids (start_detection s True) envs))
         \<and> distinct (map d_person_id
               (detections_since (start_detection s True)
                  (run_frames (start_detection s True) envs)))
         \<and> distinct (map v_person_id
               (violations_since (start_detection s True)
                  (run_frames (start_detection s True) envs)))" for s envs
  proof -
    let ?s0 = "start_detection s True"
    have "ledger_inv (run_frames ?s0 envs)"
      by (intro run_frames_inv start_detection_inv)
    then have 1: "session_total_people (run_frames ?s0 envs)
                    = int (card (logged_person_ids (run_frames ?s0 envs)))"
      unfolding ledger_inv_def by blast
    have 2: "logged_person_ids (run_frames ?s0 envs) \<subseteq> produced_ids ?s0 envs"
      using run_frames_logged [of ?s0 envs] by (simp add: start_detection_logged)
    have "rows_logged_once ?s0 (run_frames ?s0 envs)"
      by (intro run_frames_rows rows_logged_once_refl start_detection_logged)
    then have 3: "distinct (map d_person_id (detections_since ?s0 (run_frames ?s0 envs)))"
      and 4: "distinct (map v_person_id (violations_since ?s0 (run_frames ?s0 envs)))"
      unfolding rows_logged_once_def by blast+
    from 1 2 finite_produced_ids [of ?s0 envs] session_total_bound [of s envs] 3 4
    show ?thesis by (intro conjI)
  qed
  from a b c show ?thesis by blast
qed

theorem C1_counted_and_logged_once_witness:
  "process_person (frame_of bare_person False 5) [1]
      ((PPEDetectionApp empty_database True True)\<lparr>logged_person_ids := {1}\<rparr>) 0
      \<lparr>has_violation = True, violation_message = Some ''Missing PPE: helmet'',
       ppe_status = [], person_confidence = 9 / 10, person_bbox = (0, 0, 100, 200)\<rparr>
     = (None, (PPEDetectionApp empty_database True True)\<lparr>logged_person_ids := {1}\<rparr>)
   \<and> session_total_people (snd (process_person (frame_of bare_person False 5) [1]
        (PPEDetectionApp empty_database True True) 0
        \<lparr>has_violation = True, violation_message = Some ''Missing PPE: helmet'',
         ppe_status = [], person_confidence = 9 / 10, person_bbox = (0, 0, 100, 200)\<rparr>)) = 1
   \<and> logged_person_ids (snd (process_person (frame_of bare_person False 5) [1]
        (PPEDetectionApp empty_database True True) 0
        \<lparr>has_violation = True, violation_message = Some ''Missing PPE: helmet'',
         ppe_status = [], person_confidence = 9 / 10, person_bbox = (0, 0, 100, 200)\<rparr>)) = {1}
   \<and> alerts_fired (snd (process_person (frame_of bare_person False 5) [1]
        (PPEDetectionApp empty_database True True) 0
        \<lparr>has_violation = True, violation_message = Some ''Missing PPE: helmet'',
         ppe_status = [], person_confidence = 9 / 10, person_bbox = (0, 0, 100, 200)\<rparr>)) = 1
   \<and> alert_state (snd (process_person (frame_of bare_person False 5) [1]
        ((PPEDetectionApp empty_database True True)\<lparr>last_alert_time := Some 4\<rparr>) 0
        \<lparr>has_violation = True, violation_message = Some ''Missing PPE: helmet'',
         ppe_status = [], person_confidence = 9 / 10, person_bbox = (0, 0, 100, 200)\<rparr>))
       = alert_state ((PPEDetectionApp empty_database True True)\<lparr>last_alert_time := Some 4\<rparr>)
   \<and> session_total_people
        (run_frames (start_detection (PPEDetectionApp empty_database True True) True)
           [frame_of bare_person False 0, frame_of bare_person False 1]) = 1
   \<and> session_total_people
        (run_frames (start_detection (PPEDetectionApp empty_database True True) True)
           [frame_of bare_person False 0, frame_of bare_person False 1])
       \<le> int (card (produced_ids (start_detection (PPEDetectionApp empty_database True True) True)
                   [frame_of bare_person False 0, frame_of bare_person False 1]))"
proof -
  let ?a = "PPEDetectionApp empty_database True True"
  let ?e = "frame_of bare_person False 5"
  let ?v = "\<lparr>has_violation = True, violation_message = Some ''Missing PPE: helmet'',
       ppe_status = [], person_confidence = 9 / 10, person_bbox = (0, 0, 100, 200)\<rparr>"
  let ?fs = "[frame_of bare_person False 0, frame_of bare_person False 1]"
  note c1 = C1_counted_and_logged_once [THEN conjunct1, rule_format]
  note c2 = C1_counted_and_logged_once [THEN conjunct2, THEN conjunct1, rule_format]
  note c3 = C1_counted_and_logged_once [THEN conjunct2, THEN conjunct2, rule_format]
  have h1: "person_id_at [1] 0 \<in> logged_person_ids (?a\<lparr>logged_person_ids := {1}\<rparr>)"
    by (simp add: person_id_at_def)
  have h2: "person_id_at [1] 0 \<notin> logged_person_ids ?a
         \<and> \<not> storage_fails ?e 0 LogViolation \<and> \<not> storage_fails ?e 0 LogDetection"
    by (simp add: person_id_at_def PPEDetectionApp_def frame_of_def)
  have z: "session_total_people ?a = 0" "logged_person_ids ?a = {}" "person_id_at [1] 0 = 1"
    by (simp_all add: PPEDetectionApp_def person_id_at_def)
  from c1 [OF h1, of ?e ?v]
  have 1: "process_person ?e [1] (?a\<lparr>logged_person_ids := {1}\<rparr>) 0 ?v
             = (None, ?a\<lparr>logged_person_ids := {1}\<rparr>)" .
  from c2 [OF h2, of ?v]
  have 2: "session_total_people (snd (process_person ?e [1] ?a 0 ?v)) = 1"
    and 3: "logged_person_ids (snd (process_person ?e [1] ?a 0 ?v)) = {1}"
    by (simp_all add: z)
  have q: "\<not> alert_suppressed ?a (alert_clock ?e 0)" "alerts_fired ?a = 0"
    by (simp_all add: alert_suppressed_def alerts_fired_def PPEDetectionApp_def)
  from c2 [OF h2, of ?v] q
  have 6: "alerts_fired (snd (process_person ?e [1] ?a 0 ?v)) = 1" by simp
  let ?b = "?a\<lparr>last_alert_time := Some 4\<rparr>"
  have h3: "person_id_at [1] 0 \<notin> logged_person_ids ?b
         \<and> \<not> storage_fails ?e 0 LogViolation \<and> \<not> storage_fails ?e 0 LogDetection"
    by (simp add: person_id_at_def PPEDetectionApp_def frame_of_def)
  have q': "alert_suppressed ?b (alert_clock ?e 0)"
    by (simp add: alert_suppressed_def frame_of_def ALERT_COOLDOWN_def)
  have hv: "has_violation ?v" by simp
  from c2 [OF h3, of ?v] q' hv
  have 7: "alert_state (snd (process_person ?e [1] ?b 0 ?v)) = alert_state ?b" by blast
  have 4: "session_total_people (run_frames (start_detection ?a True) ?fs) = 1"
    by (simp add: run_defs eval_defs)
  from c3 [of ?a ?fs]
  have 5: "session_total_people (run_frames (start_detection ?a True) ?fs)
             \<le> int (card (produced_ids (start_detection ?a True) ?fs))"
    by blast
  from 1 2 3 6 7 4 5 show ?thesis by (intro conjI)
qed

section \<open>Storage errors\<close>

lemma process_person_violation_fails:
  assumes "person_id_at ids i \<notin> logged_person_ids s" and "has_violation v"
    and "storage_fails env i LogViolation"
  shows "process_person env ids s i v =
           (Some StorageError,
            s\<lparr>logged_person_ids := insert (person_id_at ids i) (logged_person_ids s),
              session_total_people := session_total_people s + 1,
              session_violations := session_violations s + 1\<rparr>)"
  using assms
  by (simp add: process_person_def person_id_at_def Let_def log_violation_def)

lemma process_person_detection_fails:
  assumes "person_id_at ids i \<notin> logged_person_ids s" and "\<not> has_violation v"
    and "storage_fails env i LogDetection"
  shows "process_person env ids s i v =
           (Some StorageError,
            s\<lparr>logged_person_ids := insert (person_id_at ids i) (logged_person_ids s),
              session_total_people := session_total_people s + 1,
              session_compliant := session_compliant s + 1\<rparr>)"
  using assms
  by (simp add: process_person_def person_id_at_def Let_def write_detection_def
        log_detection_def)

lemma process_person_detection_fails_after_violation:
  assumes "person_id_at ids i \<notin> logged_person_ids s" and "has_violation v"
    and "\<not> storage_fails env i LogViolation" and "storage_fails env i LogDetection"
  shows "fst (process_person env ids s i v) = Some StorageError"
    and "detections (db (snd (process_person env ids s i v))) = detections (db s)"
  using assms
  by (simp_all add: process_person_def person_id_at_def Let_def write_detection_def
        log_detection_def log_violation_def trigger_alert_ledger)

lemma process_person_marks_logged:
  "person_id_at ids i \<in> logged_person_ids (snd (process_person env ids s i v))"
proof (cases "person_id_at ids i \<in> logged_person_ids s")
  case True
  then show ?thesis by (simp add: process_person_repeat)
next
  case False
  from process_person_ledger(1) [OF False refl] show ?thesis by simp
qed

lemma process_loop_raises:
  "fst (process_person env ids s i v) = Some e \<Longrightarrow>
     process_loop env ids s i (v # rest) = process_person env ids s i v"
  by (cases "process_person env ids s i v") auto

lemma update_frame_loop:
  "ret env \<Longrightarrow> frame_nonempty env \<Longrightarrow> frame_tracking s env = Some (ids, trk) \<Longrightarrow>
     update_frame s env =
       process_loop env ids
         (s\<lparr>frame_count := frame_count s + 1, person_tracker := trk,
            current_frame := Some (frame_count s + 1)\<rparr>)
         0 (frame_results s env)"
  by (simp add: update_frame_def Let_def)

lemma stop_detection_fails:
  "0 < session_total_people s \<Longrightarrow> stop_detection s d True = (Some StorageError, s)"
  by (simp add: stop_detection_def update_daily_stats_def)

text \<open>
  C8, as stated, fails: no database call of the pipeline is inside a \<open>try\<close>. With the
  storage failing, the first frame of a session with two persons ends in the storage error
  leaving \<open>update_frame\<close>. The first person is logged and
  counted, but no row is written and no alert is raised for it, and the second person is not
  processed. A later frame with working storage does not write the lost rows either.
\<close>

theorem C8_storage_error_leaves_update_frame:
  "fst (update_frame (start_detection (PPEDetectionApp empty_database True True) True)
          (frame_of two_persons True 0)) = Some StorageError
   \<and> logged_person_ids (snd (update_frame
          (start_detection (PPEDetectionApp empty_database True True) True)
          (frame_of two_persons True 0))) = {1}
   \<and> db (snd (update_frame
          (start_detection (PPEDetectionApp empty_database True True) True)
          (frame_of two_persons True 0))) = empty_database
   \<and> alert_log (snd (update_frame
          (start_detection (PPEDetectionApp empty_database True True) True)
          (frame_of two_persons True 0))) = []
   \<and> db (run_frames (start_detection (PPEDetectionApp empty_database True True) True)
          [frame_of bare_person True 0, frame_of bare_person False 1]) = empty_database"
  by (simp add: run_defs eval_defs)

text \<open>
  C8, amended. A storage error of a database call is not caught: it leaves the body of the
  frame loop, ends the loop, so that the persons after it in the frame are not processed in
  that call, and leaves \<open>update_frame\<close>; a failing update of the daily statistics leaves
  \<open>stop_detection\<close>. When the error is raised the identity is already in the logged set
  and counted, the failed row is not written, and a failing violation row takes the alert
  and the detection row with it; the identity stays logged, so later observations write
  nothing for it. The ledger stays consistent.
\<close>

theorem C8_storage_error_propagates:
  "(\<forall>env ids s i v.
      person_id_at ids i \<notin> logged_person_ids s \<and> has_violation v
      \<and> storage_fails env i LogViolation \<longrightarrow>
      process_person env ids s i v =
        (Some StorageError,
         s\<lparr>logged_person_ids := insert (person_id_at ids i) (logged_person_ids s),
           session_total_people := session_total_people s + 1,
           session_violations := session_violations s + 1\<rparr>))
   \<and> (\<forall>env ids s i v.
      person_id_at ids i \<notin> logged_person_ids s \<and> \<not> has_violation v
      \<and> storage_fails env i LogDetection \<longrightarrow>
      process_person env ids s i v =
        (Some StorageError,
         s\<lparr>logged_person_ids := insert (person_id_at ids i) (logged_person_ids s),
           session_total_people := session_total_people s + 1,
           session_compliant := session_compliant s + 1\<rparr>))
   \<and> (\<forall>env ids s i v.
      person_id_at ids i \<notin> logged_person_ids s \<and> has_violation v
      \<and> \<not> storage_fails env i LogViolation \<and> storage_fails env i LogDetection \<longrightarrow>
      fst (process_person env ids s i v) = Some StorageError
      \<and> detections (db (snd (process_person env ids s i v))) = detections (db s))
   \<and> (\<forall>env ids s i v rest e.
      fst (process_person env ids s i v) = Some e \<longrightarrow>
      process_loop env ids s i (v # rest) = process_person env ids s i v)
   \<and> (\<forall>env s ids trk.
      ret env \<and> frame_nonempty env \<and> frame_tracking s env = Some (ids, trk) \<longrightarrow>
      update_frame s env =
        process_loop env ids
          (s\<lparr>frame_count := frame_count s + 1, person_tracker := trk,
             current_frame := Some (frame_count s + 1)\<rparr>)
          0 (frame_results s env))
   \<and> (\<forall>s d. 0 < session_total_people s \<longrightarrow>
      stop_detection s d True = (Some StorageError, s))
   \<and> (\<forall>env ids s i v.
      person_id_at ids i \<in> logged_person_ids (snd (process_person env ids s i v)))
   \<and> (\<forall>env ids s i v. person_id_at ids i \<in> logged_person_ids s \<longrightarrow>
      process_person env ids s i v = (None, s))
   \<and> (\<forall>env s. ledger_inv s \<longrightarrow> ledger_inv (snd (update_frame s env)))"
proof -
  have a: "\<forall>env ids s i v.
      person_id_at ids i \<notin> logged_person_ids s \<and> has_violation v
      \<and> storage_fails env i LogViolation \<longrightarrow>
      process_person env ids s i v =
        (Some StorageError,
         s\<lparr>logged_person_ids := insert (person_id_at ids i) (logged_person_ids s),
           session_total_people := session_total_people s + 1,
           session_violations := session_violations s + 1\<rparr>)"
    by (simp add: process_person_violation_fails)
  have b: "\<forall>env ids s i v.
      person_id_at ids i \<notin> logged_person_ids s \<and> \<not> has_violation v
      \<and> storage_fails env i LogDetection \<longrightarrow>
      process_person env ids s i v =
        (Some StorageError,
         s\<lparr>logged_person_ids := insert (person_id_at ids i) (logged_person_ids s),
           session_total_people := session_total_people s + 1,
           session_compliant := session_compliant s + 1\<rparr>)"
    by (simp add: process_person_detection_fails)
  have c: "\<forall>env ids s i v.
      person_id_at ids i \<notin> logged_person_ids s \<and> has_violation v
      \<and> \<not> storage_fails env i LogViolation \<and> storage_fails env i LogDetection \<longrightarrow>
      fst (process_person env ids s i v) = Some StorageError
      \<and> detections (db (snd (process_person env ids s i v))) = detections (db s)"
    by (simp add: process_person_detection_fails_after_violation)
  have d: "\<forall>env ids s i v rest e.
      fst (process_person env ids s i v) = Some e \<longrightarrow>
      process_loop env ids s i (v # rest) = process_person env ids s i v"
    using process_loop_raises by blast
  have e: "\<forall>env s ids trk.
      ret env \<and> frame_nonempty env \<and> frame_tracking s env = Some (ids, trk) \<longrightarrow>
      update_frame s env =
        process_loop env ids
          (s\<lparr>frame_count := frame_count s + 1, person_tracker := trk,
             current_frame := Some (frame_count s + 1)\<rparr>)
          0 (frame_results s env)"
    by (simp add: update_frame_loop)
  have f: "\<forall>s d. 0 < session_total_people s \<longrightarrow>
      stop_detection s d True = (Some StorageError, s)"
    by (simp add: stop_detection_fails)
  have g: "\<forall>env ids s i v.
      person_id_at ids i \<in> logged_person_ids (snd (process_person env ids s i v))"
    by (simp add: process_person_marks_logged)
  have h: "\<forall>env ids s i v. person_id_at ids i \<in> logged_person_ids s \<longrightarrow>
      process_person env ids s i v = (None, s)"
    by (simp add: process_person_repeat)
  have k: "\<forall>env s. ledger_inv s \<longrightarrow> ledger_inv (snd (update_frame s env))"
    by (simp add: update_frame_inv)
  from a b c d e f g h k show ?thesis by (intro conjI)
qed

theorem C8_storage_error_propagates_witness:
  "process_person (frame_of bare_person True 0) [1] (PPEDetectionApp empty_database True True) 0
     \<lparr>has_violation = True, violation_message = Some ''Missing PPE: helmet'',
      ppe_status = [], person_confidence = 9 / 10, person_bbox = (0, 0, 100, 200)\<rparr>
     = (Some StorageError,
        (PPEDetectionApp empty_database True True)
          \<lparr>logged_person_ids := {1}, session_total_people := 1, session_violations := 1\<rparr>)
   \<and> process_loop (frame_of bare_person True 0) [1] (PPEDetectionApp empty_database True True) 0
       [\<lparr>has_violation = True, violation_message = Some ''Missing PPE: helmet'',
         ppe_status = [], person_confidence = 9 / 10, person_bbox = (0, 0, 100, 200)\<rparr>]
     = (Some StorageError,
        (PPEDetectionApp empty_database True True)
          \<lparr>logged_person_ids := {1}, session_total_people := 1, session_violations := 1\<rparr>)
   \<and> stop_detection ((PPEDetectionApp empty_database True True)\<lparr>session_total_people := 1\<rparr>)
        ''2024-01-01'' True
     = (Some StorageError, (PPEDetectionApp empty_database True True)\<lparr>session_total_people := 1\<rparr>)"
proof -
  let ?a = "PPEDetectionApp empty_database True True"
  let ?e = "frame_of bare_person True 0"
  let ?v = "\<lparr>has_violation = True, violation_message = Some ''Missing PPE: helmet'',
      ppe_status = [], person_confidence = 9 / 10, person_bbox = (0, 0, 100, 200)\<rparr>"
  note c1 = C8_storage_error_propagates [THEN conjunct1, rule_format]
  note c4 = C8_storage_error_propagates [THEN conjunct2, THEN conjunct2, THEN conjunct2,
              THEN conjunct1, rule_format]
  note c6 = C8_storage_error_propagates [THEN conjunct2, THEN conjunct2, THEN conjunct2,
              THEN conjunct2, THEN conjunct2, THEN conjunct1, rule_format]
  have h: "person_id_at [1] 0 \<notin> logged_person_ids ?a \<and> has_violation ?v
      \<and> storage_fails ?e 0 LogViolation"
    by (simp add: person_id_at_def PPEDetectionApp_def frame_of_def)
  have z: "person_id_at [1] 0 = 1" "logged_person_ids ?a = {}" "session_total_people ?a = 0"
    "session_violations ?a = 0"
    by (simp_all add: person_id_at_def PPEDetectionApp_def)
  from c1 [OF h]
  have 1: "process_person ?e [1] ?a 0 ?v
     = (Some StorageError,
        ?a\<lparr>logged_person_ids := {1}, session_total_people := 1, session_violations := 1\<rparr>)"
    by (simp add: z)
  then have "fst (process_person ?e [1] ?a 0 ?v) = Some StorageError" by simp
  from c4 [OF this, of "[]"] 1
  have 2: "process_loop ?e [1] ?a 0 [?v]
     = (Some StorageError,
        ?a\<lparr>logged_person_ids := {1}, session_total_people := 1, session_violations := 1\<rparr>)"
    by simp
  have "0 < session_total_people (?a\<lparr>session_total_people := 1\<rparr>)" by simp
  from c6 [OF this]
  have 3: "stop_detection (?a\<lparr>session_total_people := 1\<rparr>) ''2024-01-01'' True
     = (Some StorageError, ?a\<lparr>session_total_people := 1\<rparr>)" .
  from 1 2 3 show ?thesis by (intro conjI)
qed

section \<open>Properties of the tracker\<close>

lemma dict_get_Some_iff:
  "distinct (map fst d) \<Longrightarrow> dict_get d k = Some v \<longleftrightarrow> (k, v) \<in> set d"
  by (simp add: dict_get_def)

lemma dict_get_in_keys:
  "k \<in> fst ` set d \<Longrightarrow> \<exists>v. dict_get d k = Some v"
  unfolding dict_get_def by (cases "map_of d k") (auto simp: map_of_eq_None_iff)

lemma dict_set_absent:
  "k \<notin> fst ` set d \<Longrightarrow> dict_set d k v = d @ [(k, v)]"
  by (induction d) auto

lemma dict_set_present:
  "distinct (map fst d) \<Longrightarrow> k \<in> fst ` set d \<Longrightarrow>
     dict_set d k v = map (\<lambda>kt. if fst kt = k then (k, v) else kt) d"
proof (induction d)
  case Nil
  then show ?case by simp
next
  case (Cons a d)
  show ?case
  proof (cases "fst a = k")
    case True
    with Cons.prems have "k \<notin> fst ` set d" by auto
    then have "map (\<lambda>kt. if fst kt = k then (k, v) else kt) d = d"
      by (intro map_idI) auto
    with True show ?thesis by (cases a) simp
  next
    case False
    with Cons show ?thesis by (cases a) auto
  qed
qed

lemma best_match_acc:
  "best_match md used c (map (\<lambda>kt. (fst kt, centroid (snd kt))) xs) (Some m) (Some b) =
     (if spec_candidates md xs used c = []
         \<or> m \<le> calculate_distance c (centroid (snd (arg_min_list
                  (\<lambda>kt. calculate_distance c (centroid (snd kt))) (spec_candidates md xs used c))))
      then Some b
      else Some (fst (arg_min_list (\<lambda>kt. calculate_distance c (centroid (snd kt)))
                        (spec_candidates md xs used c))))"
proof (induction xs arbitrary: m b)
  case Nil
  then show ?case by (simp add: spec_candidates_def)
next
  case (Cons x xs)
  obtain k tr where x: "x = (k, tr)" by (cases x)
  let ?d = "\<lambda>kt. calculate_distance c (centroid (snd kt))"
  let ?cs = "spec_candidates md xs used c"
  show ?case
  proof (cases "k \<notin> used \<and> ?d x < md")
    case False
    then have "spec_candidates md ((k, tr) # xs) used c = ?cs"
      by (auto simp: spec_candidates_def x)
    with False Cons.IH [of m b] show ?thesis
      by (auto simp: x Let_def)
  next
    case True
    then have cx: "spec_candidates md ((k, tr) # xs) used c = (k, tr) # ?cs"
      by (auto simp: spec_candidates_def x)
    show ?thesis
    proof (cases ?cs)
      case Nil
      with True Cons.IH [of m b] Cons.IH [of "?d x" k] show ?thesis
        by (auto simp: x Let_def cx)
    next
      case (Cons y ys)
      with True Cons.IH [of m b] Cons.IH [of "?d x" k] show ?thesis
        by (auto simp: x Let_def cx)
    qed
  qed
qed

lemma best_match_nearest:
  "best_match md used c (map (\<lambda>kt. (fst kt, centroid (snd kt))) xs) None None =
     spec_nearest md xs used c"
proof (induction xs)
  case Nil
  then show ?case by (simp add: spec_nearest_def spec_candidates_def)
next
  case (Cons x xs)
  obtain k tr where x: "x = (k, tr)" by (cases x)
  let ?d = "\<lambda>kt. calculate_distance c (centroid (snd kt))"
  let ?cs = "spec_candidates md xs used c"
  show ?case
  proof (cases "k \<notin> used \<and> ?d x < md")
    case False
    then have "spec_candidates md ((k, tr) # xs) used c = ?cs"
      by (auto simp: spec_candidates_def x)
    with False Cons.IH show ?thesis
      by (auto simp: x Let_def spec_nearest_def)
  next
    case True
    then have cx: "spec_candidates md ((k, tr) # xs) used c = (k, tr) # ?cs"
      by (auto simp: spec_candidates_def x)
    show ?thesis
    proof (cases ?cs)
      case Nil
      with True best_match_acc [of md used c xs "?d x" k] show ?thesis
        by (auto simp: x Let_def cx spec_nearest_def)
    next
      case (Cons y ys)
      with True best_match_acc [of md used c xs "?d x" k] show ?thesis
        by (auto simp: x Let_def cx spec_nearest_def)
    qed
  qed
qed

lemma spec_nearest_Some_in:
  "spec_nearest md ex used c = Some k \<Longrightarrow> k \<in> fst ` set ex \<and> k \<notin> used"
proof -
  assume a: "spec_nearest md ex used c = Some k"
  let ?cs = "spec_candidates md ex used c"
  let ?d = "\<lambda>kt. calculate_distance c (centroid (snd kt))"
  from a have ne: "?cs \<noteq> []" and k: "k = fst (arg_min_list ?d ?cs)"
    by (auto simp: spec_nearest_def split: if_splits)
  from arg_min_list_in [OF ne, of ?d] have "arg_min_list ?d ?cs \<in> set ?cs" .
  then show ?thesis unfolding k by (auto simp: spec_candidates_def)
qed

lemma keys_spec_move [simp]: "map fst (spec_move k c d) = map fst d"
  by (induction d) (auto simp: spec_move_def)

lemma tracker_inv_move:
  "tracker_inv t \<Longrightarrow> tracker_inv (t\<lparr>tracked_persons := spec_move k c (tracked_persons t)\<rparr>)"
  by (simp add: tracker_inv_def dict_keys_def)

lemma tracker_inv_register:
  "tracker_inv t \<Longrightarrow> tracker_inv (spec_register t c)"
  by (auto simp: tracker_inv_def dict_keys_def spec_register_def)

lemma register_spec:
  "tracker_inv t \<Longrightarrow> register t c = (next_id t, spec_register t c)"
proof -
  assume "tracker_inv t"
  then have "next_id t \<notin> fst ` set (tracked_persons t)"
    by (auto simp: tracker_inv_def dict_keys_def)
  then show ?thesis
    by (simp add: register_def spec_register_def dict_set_absent Let_def)
qed

lemma dict_set_move:
  assumes "distinct (map fst d)" and "dict_get d k = Some tr"
  shows "dict_set d k (tr\<lparr>centroid := c, frames_missing := 0\<rparr>) = spec_move k c d"
proof -
  from assms have in_d: "(k, tr) \<in> set d" by (simp add: dict_get_Some_iff)
  then have k: "k \<in> fst ` set d" by force
  have "snd kt = tr" if "kt \<in> set d" "fst kt = k" for kt
    using that in_d assms(1) by (metis eq_key_imp_eq_value prod.collapse)
  then have "map (\<lambda>kt. if fst kt = k then (k, tr\<lparr>centroid := c, frames_missing := 0\<rparr>) else kt) d
               = spec_move k c d"
    unfolding spec_move_def by (intro map_cong) auto
  with dict_set_present [OF assms(1) k] show ?thesis by simp
qed

lemma match_loop_greedy:
  assumes "tracker_inv t" and "fst ` set ex \<subseteq> fst ` set (tracked_persons t)"
  shows "match_loop (map (\<lambda>kt. (fst kt, centroid (snd kt))) ex) cs used t
           = Some (spec_greedy ex cs used t)"
  using assms
proof (induction cs arbitrary: used t)
  case Nil
  then show ?case by simp
next
  case (Cons c cs)
  let ?tracked = "map (\<lambda>kt. (fst kt, centroid (snd kt))) ex"
  have bm: "best_match (max_distance t) used c ?tracked None None
              = spec_nearest (max_distance t) ex used c"
    by (rule best_match_nearest)
  show ?case
  proof (cases "spec_nearest (max_distance t) ex used c")
    case None
    let ?t1 = "spec_register t c"
    have inv1: "tracker_inv ?t1" using Cons.prems(1) by (rule tracker_inv_register)
    have sub1: "fst ` set ex \<subseteq> fst ` set (tracked_persons ?t1)"
      using Cons.prems(2) by (auto simp: spec_register_def)
    from Cons.IH [OF inv1 sub1, of used] None bm register_spec [OF Cons.prems(1), of c]
    show ?thesis by (simp split: prod.splits)
  next
    case (Some k)
    from spec_nearest_Some_in [OF Some] Cons.prems(2)
    have "k \<in> fst ` set (tracked_persons t)" by auto
    from dict_get_in_keys [OF this] obtain tr where g: "dict_get (tracked_persons t) k = Some tr"
      by auto
    have d: "distinct (map fst (tracked_persons t))"
      using Cons.prems(1) by (simp add: tracker_inv_def dict_keys_def)
    let ?t1 = "t\<lparr>tracked_persons := spec_move k c (tracked_persons t)\<rparr>"
    have inv1: "tracker_inv ?t1" using Cons.prems(1) by (rule tracker_inv_move)
    have sub1: "fst ` set ex \<subseteq> fst ` set (tracked_persons ?t1)"
      using Cons.prems(2) by (simp flip: set_map)
    from Cons.IH [OF inv1 sub1, of "insert k used"] Some bm g dict_set_move [OF d g, of c]
    show ?thesis by (simp split: prod.splits)
  qed
qed

lemma keys_aged_subset: "fst ` set (aged w S d) \<subseteq> fst ` set d"
  by (force simp: aged_def spec_age_def split: if_splits)

lemma distinct_keys_aged: "distinct (map fst d) \<Longrightarrow> distinct (map fst (aged w S d))"
proof -
  have "map fst (spec_age S d) = map fst d"
    by (induction d) (auto simp: spec_age_def)
  moreover assume "distinct (map fst d)"
  ultimately have "distinct (map fst (spec_age S d))" by simp
  then show ?thesis unfolding aged_def by (rule distinct_map_filter)
qed

lemma keys_aged_other: "k \<in> fst ` set d \<Longrightarrow> k \<notin> S \<Longrightarrow> k \<in> fst ` set (aged w S d)"
  by (induction d) (auto simp: aged_def spec_age_def)

lemma aged_empty [simp]: "aged w {} d = d"
  by (induction d) (auto simp: aged_def spec_age_def)

lemma aged_insert:
  "pid \<notin> A \<Longrightarrow> aged w A (aged w {pid} d) = aged w (insert pid A) d"
  by (induction d) (auto simp: aged_def spec_age_def)

lemma age_one:
  assumes "distinct (map fst d)" and "dict_get d pid = Some tr"
  shows "(let tr' = tr\<lparr>frames_missing := frames_missing tr + 1\<rparr>; d' = dict_set d pid tr'
          in if frames_missing tr' > w then dict_del d' pid else d') = aged w {pid} d"
proof -
  let ?tr' = "tr\<lparr>frames_missing := frames_missing tr + 1\<rparr>"
  from assms have in_d: "(pid, tr) \<in> set d" by (simp add: dict_get_Some_iff)
  then have k: "pid \<in> fst ` set d" by force
  have u: "snd kt = tr" if "kt \<in> set d" "fst kt = pid" for kt
    using that in_d assms(1) by (metis eq_key_imp_eq_value prod.collapse)
  have s: "dict_set d pid ?tr' = spec_age {pid} d"
    unfolding dict_set_present [OF assms(1) k] spec_age_def
    by (intro map_cong) (auto simp: u)
  have f: "frames_missing (snd kt) = frames_missing tr + 1"
    if "kt \<in> set (spec_age {pid} d)" "fst kt = pid" for kt
  proof -
    from that(1)
    have "kt \<in> (\<lambda>kt. if fst kt \<in> {pid}
                     then (fst kt, (snd kt)\<lparr>frames_missing := frames_missing (snd kt) + 1\<rparr>)
                     else kt) ` set d"
      unfolding spec_age_def by simp
    then obtain kt0 where kt0: "kt0 \<in> set d"
      and kt: "kt = (if fst kt0 \<in> {pid}
                     then (fst kt0, (snd kt0)\<lparr>frames_missing := frames_missing (snd kt0) + 1\<rparr>)
                     else kt0)"
      by (rule imageE)
    from kt that(2) have "fst kt0 = pid" by (auto split: if_splits)
    with u [OF kt0] kt show ?thesis by simp
  qed
  show ?thesis
  proof (cases "frames_missing ?tr' > w")
    case True
    have "dict_del (spec_age {pid} d) pid = aged w {pid} d"
      unfolding dict_del_def aged_def using True f by (intro filter_cong) auto
    with True s show ?thesis by (simp add: Let_def)
  next
    case False
    have "filter (\<lambda>kt. \<not> (fst kt \<in> {pid} \<and> frames_missing (snd kt) > w)) (spec_age {pid} d)
            = spec_age {pid} d"
      using False f by (intro filter_True) auto
    with False s show ?thesis by (simp add: Let_def aged_def)
  qed
qed

lemma age_unmatched_aged:
  assumes "distinct (map fst (tracked_persons t))" and "distinct pids"
    and "set pids \<subseteq> fst ` set (tracked_persons t)"
  shows "age_unmatched pids used t =
           Some (t\<lparr>tracked_persons := aged (memory_frames t) (set pids - used) (tracked_persons t)\<rparr>)"
  using assms
proof (induction pids arbitrary: t)
  case Nil
  then show ?case by simp
next
  case (Cons pid pids)
  show ?case
  proof (cases "pid \<in> used")
    case True
    from Cons.prems have "distinct pids" "set pids \<subseteq> fst ` set (tracked_persons t)" by auto
    from Cons.IH [OF Cons.prems(1) this] True show ?thesis
      by (simp add: insert_Diff_if)
  next
    case False
    from Cons.prems(3) have "pid \<in> fst ` set (tracked_persons t)" by simp
    from dict_get_in_keys [OF this] obtain tr where g: "dict_get (tracked_persons t) pid = Some tr"
      by auto
    let ?d1 = "aged (memory_frames t) {pid} (tracked_persons t)"
    let ?t1 = "t\<lparr>tracked_persons := ?d1\<rparr>"
    have step: "age_unmatched (pid # pids) used t = age_unmatched pids used ?t1"
      using False g age_one [OF Cons.prems(1) g, of "memory_frames t"]
      by (auto simp: Let_def split: if_splits)
    have d1: "distinct (map fst (tracked_persons ?t1))"
      using Cons.prems(1) by (simp add: distinct_keys_aged)
    have p: "distinct pids" "pid \<notin> set pids" using Cons.prems(2) by auto
    have sub: "set pids \<subseteq> fst ` set (tracked_persons ?t1)"
      using Cons.prems(3) p(2) by (auto intro!: keys_aged_other)
    have "pid \<notin> set pids - used" using p(2) by simp
    from aged_insert [OF this, of "memory_frames t" "tracked_persons t"] False
    have "aged (memory_frames t) (set pids - used) ?d1
            = aged (memory_frames t) (set (pid # pids) - used) (tracked_persons t)"
      by (simp add: insert_Diff_if)
    with Cons.IH [OF d1 p(1) sub] step show ?thesis by simp
  qed
qed

lemma age_all_aged:
  assumes "distinct (map fst (tracked_persons t))" and "distinct pids"
    and "set pids \<subseteq> fst ` set (tracked_persons t)"
  shows "age_all pids t =
           Some (t\<lparr>tracked_persons := aged (memory_frames t) (set pids) (tracked_persons t)\<rparr>)"
proof -
  have "age_all pids t = age_unmatched pids {} t" for t
    by (induction pids arbitrary: t) (auto simp: Let_def split: option.splits)
  with age_unmatched_aged [OF assms, of "{}"] show ?thesis by simp
qed

lemma spec_greedy_props:
  assumes "spec_greedy ex cs used t = (ids, used', t')"
    and "tracker_inv t" and "fst ` set ex \<subseteq> fst ` set (tracked_persons t)"
  shows "length ids = length cs
    \<and> next_id t \<le> next_id t'
    \<and> map fst (tracked_persons t') = map fst (tracked_persons t) @ [next_id t .. next_id t' - 1]
    \<and> filter (\<lambda>i. i \<notin> fst ` set ex) ids = [next_id t .. next_id t' - 1]
    \<and> memory_frames t' = memory_frames t
    \<and> max_distance t' = max_distance t
    \<and> tracker_inv t'
    \<and> used \<subseteq> used'"
  using assms
proof (induction cs arbitrary: used t ids used' t')
  case Nil
  then show ?case by auto
next
  case (Cons c cs)
  have below: "\<forall>k \<in> fst ` set ex. k < next_id t"
  proof
    fix k assume "k \<in> fst ` set ex"
    with Cons.prems(3) have "k \<in> set (dict_keys (tracked_persons t))"
      by (auto simp: dict_keys_def)
    with Cons.prems(2) show "k < next_id t" unfolding tracker_inv_def by blast
  qed
  show ?case
  proof (cases "spec_nearest (max_distance t) ex used c")
    case None
    let ?t1 = "spec_register t c"
    obtain ids1 where r: "spec_greedy ex cs used ?t1 = (ids1, used', t')"
      and ids: "ids = next_id t # ids1"
      using Cons.prems(1) None by (auto split: prod.splits)
    have inv1: "tracker_inv ?t1" using Cons.prems(2) by (rule tracker_inv_register)
    have sub1: "fst ` set ex \<subseteq> fst ` set (tracked_persons ?t1)"
      using Cons.prems(3) by (auto simp: spec_register_def)
    note ih = Cons.IH [OF r inv1 sub1]
    have n1: "next_id ?t1 = next_id t + 1" by (simp add: spec_register_def)
    have k1: "map fst (tracked_persons ?t1) = map fst (tracked_persons t) @ [next_id t]"
      by (simp add: spec_register_def)
    have le: "next_id t + 1 \<le> next_id t'" using ih n1 by simp
    then have up: "[next_id t .. next_id t' - 1] = next_id t # [next_id t + 1 .. next_id t' - 1]"
      by (intro upto_rec1) simp
    have new: "next_id t \<notin> fst ` set ex" using below by auto
    from ih show ?thesis
      by (simp add: ids n1 k1 up new spec_register_def)
  next
    case (Some k)
    let ?t1 = "t\<lparr>tracked_persons := spec_move k c (tracked_persons t)\<rparr>"
    obtain ids1 where r: "spec_greedy ex cs (insert k used) ?t1 = (ids1, used', t')"
      and ids: "ids = k # ids1"
      using Cons.prems(1) Some by (auto split: prod.splits)
    have inv1: "tracker_inv ?t1" using Cons.prems(2) by (rule tracker_inv_move)
    have sub1: "fst ` set ex \<subseteq> fst ` set (tracked_persons ?t1)"
      using Cons.prems(3) by (simp flip: set_map)
    note ih = Cons.IH [OF r inv1 sub1]
    have old: "k \<in> fst ` set ex" using spec_nearest_Some_in [OF Some] by simp
    from ih show ?thesis
      by (simp add: ids old)
  qed
qed

lemma spec_greedy_zero:
  assumes "spec_greedy ex cs used t = (ids, used', t')"
    and "tracker_inv t"
    and "\<forall>kt \<in> set (tracked_persons t).
           fst kt \<in> used \<or> fst kt \<notin> fst ` set ex \<longrightarrow> frames_missing (snd kt) = 0"
  shows "\<forall>kt \<in> set (tracked_persons t').
           fst kt \<in> used' \<or> fst kt \<notin> fst ` set ex \<longrightarrow> frames_missing (snd kt) = 0"
  using assms
proof (induction cs arbitrary: used t ids used' t')
  case Nil
  then show ?case by auto
next
  case (Cons c cs)
  show ?case
  proof (cases "spec_nearest (max_distance t) ex used c")
    case None
    let ?t1 = "spec_register t c"
    obtain ids1 where r: "spec_greedy ex cs used ?t1 = (ids1, used', t')"
      using Cons.prems(1) None by (auto split: prod.splits)
    have inv1: "tracker_inv ?t1" using Cons.prems(2) by (rule tracker_inv_register)
    have z1: "\<forall>kt \<in> set (tracked_persons ?t1).
           fst kt \<in> used \<or> fst kt \<notin> fst ` set ex \<longrightarrow> frames_missing (snd kt) = 0"
      using Cons.prems(3) by (auto simp: spec_register_def)
    from Cons.IH [OF r inv1 z1] show ?thesis .
  next
    case (Some k)
    let ?t1 = "t\<lparr>tracked_persons := spec_move k c (tracked_persons t)\<rparr>"
    obtain ids1 where r: "spec_greedy ex cs (insert k used) ?t1 = (ids1, used', t')"
      using Cons.prems(1) Some by (auto split: prod.splits)
    have inv1: "tracker_inv ?t1" using Cons.prems(2) by (rule tracker_inv_move)
    have z1: "\<forall>kt \<in> set (tracked_persons ?t1).
           fst kt \<in> insert k used \<or> fst kt \<notin> fst ` set ex \<longrightarrow> frames_missing (snd kt) = 0"
      using Cons.prems(3) by (auto simp: spec_move_def split: if_splits)
    from Cons.IH [OF r inv1 z1] show ?thesis .
  qed
qed

lemma register_all_match:
  "match_loop [] cs used t =
     (case register_all cs t of (ids, t') \<Rightarrow> Some (ids, used, t'))"
  by (induction cs arbitrary: t) (auto split: prod.splits)

lemma aged_all: "fst ` set d \<subseteq> S \<Longrightarrow> aged w S d = spec_expire w (spec_age S d)"
  unfolding aged_def spec_expire_def
  by (intro filter_cong) (auto simp: spec_age_def split: if_splits)

lemma aged_expire:
  "\<forall>kt \<in> set d. fst kt \<notin> S \<longrightarrow> frames_missing (snd kt) \<le> w \<Longrightarrow>
     aged w S d = spec_expire w (spec_age S d)"
  unfolding aged_def spec_expire_def
  by (intro filter_cong) (auto simp: spec_age_def split: if_splits)

lemma zip_keys_centroids:
  "zip (dict_keys d) (map (\<lambda>kv. centroid (snd kv)) d) = map (\<lambda>kt. (fst kt, centroid (snd kt))) d"
  by (induction d) (auto simp: dict_keys_def)

lemma update_greedy_aged:
  assumes inv: "tracker_inv t"
    and g: "spec_greedy (tracked_persons t) (map centroid_of boxes) {} t = (ids, used, t1)"
  shows "update t boxes =
           Some (ids, t1\<lparr>tracked_persons :=
                         aged (memory_frames t) (set (dict_keys (tracked_persons t)) - used)
                           (tracked_persons t1)\<rparr>)"
proof -
  let ?d = "tracked_persons t"
  let ?cs = "map centroid_of boxes"
  have dist: "distinct (map fst ?d)" using inv by (simp add: tracker_inv_def dict_keys_def)
  note p = spec_greedy_props [OF g inv subset_refl]
  have ml: "match_loop (map (\<lambda>kt. (fst kt, centroid (snd kt))) ?d) ?cs {} t = Some (ids, used, t1)"
    using match_loop_greedy [OF inv subset_refl, of ?cs "{}"] g by simp
  show ?thesis
  proof (cases "boxes = []")
    case True
    with g have e: "ids = []" "used = {}" "t1 = t" by simp_all
    have "age_all (dict_keys ?d) t
            = Some (t\<lparr>tracked_persons := aged (memory_frames t) (set (dict_keys ?d)) ?d\<rparr>)"
      using dist by (intro age_all_aged) (simp_all add: dict_keys_def)
    with True e show ?thesis by (simp add: update_def)
  next
    case False
    show ?thesis
    proof (cases "?d = []")
      case True
      with ml have "match_loop [] ?cs {} t = Some (ids, used, t1)" by simp
      then have r: "register_all ?cs t = (ids, t1)" and u: "used = {}"
        by (auto simp: register_all_match split: prod.splits)
      have "t1\<lparr>tracked_persons := tracked_persons t1\<rparr> = t1" by simp
      with False True r u show ?thesis by (simp add: update_def dict_keys_def)
    next
      case ne: False
      have "tracker_inv t1" using p by blast
      then have d1: "distinct (map fst (tracked_persons t1))"
        by (simp add: tracker_inv_def dict_keys_def)
      have sub: "set (dict_keys ?d) \<subseteq> fst ` set (tracked_persons t1)"
      proof -
        from p have "map fst (tracked_persons t1) = map fst ?d @ [next_id t .. next_id t1 - 1]"
          by simp
        then have "set (map fst ?d) \<subseteq> set (map fst (tracked_persons t1))" by simp
        then show ?thesis by (simp add: dict_keys_def)
      qed
      have dk: "distinct (dict_keys ?d)" using dist by (simp add: dict_keys_def)
      have mf: "memory_frames t1 = memory_frames t" using p by simp
      from age_unmatched_aged [OF d1 dk sub, of used]
      have au: "age_unmatched (dict_keys ?d) used t1
                  = Some (t1\<lparr>tracked_persons :=
                             aged (memory_frames t) (set (dict_keys ?d) - used)
                               (tracked_persons t1)\<rparr>)"
        by (simp add: mf)
      from False ne ml au show ?thesis
        by (simp add: update_def zip_keys_centroids Let_def)
    qed
  qed
qed

lemma update_spec:
  assumes inv: "tracker_inv t" and w: "0 \<le> memory_frames t"
  shows "update t boxes = Some (spec_update t boxes)"
proof -
  obtain ids used t1
    where g: "spec_greedy (tracked_persons t) (map centroid_of boxes) {} t = (ids, used, t1)"
    by (cases "spec_greedy (tracked_persons t) (map centroid_of boxes) {} t") auto
  let ?S = "set (dict_keys (tracked_persons t)) - used"
  have z0: "\<forall>kt \<in> set (tracked_persons t).
              fst kt \<in> {} \<or> fst kt \<notin> fst ` set (tracked_persons t) \<longrightarrow>
              frames_missing (snd kt) = 0"
    by auto
  note z = spec_greedy_zero [OF g inv z0]
  have "\<forall>kt \<in> set (tracked_persons t1). fst kt \<notin> ?S \<longrightarrow> frames_missing (snd kt) \<le> memory_frames t"
  proof (intro ballI impI)
    fix kt assume kt: "kt \<in> set (tracked_persons t1)" and "fst kt \<notin> ?S"
    then have "fst kt \<in> used \<or> fst kt \<notin> fst ` set (tracked_persons t)"
      by (auto simp: dict_keys_def)
    with z kt have "frames_missing (snd kt) = 0" by blast
    with w show "frames_missing (snd kt) \<le> memory_frames t" by simp
  qed
  from aged_expire [OF this] update_greedy_aged [OF inv g] g
  show ?thesis by (simp add: spec_update_def)
qed

lemma update_inv:
  assumes inv: "tracker_inv t" and u: "update t boxes = Some (ids, t')"
  shows "tracker_inv t'" and "next_id t \<le> next_id t'"
    and "filter (\<lambda>i. i \<notin> set (dict_keys (tracked_persons t))) ids = [next_id t .. next_id t' - 1]"
    and "length ids = length boxes"
    and "memory_frames t' = memory_frames t" and "max_distance t' = max_distance t"
proof -
  obtain ids0 used t1
    where g: "spec_greedy (tracked_persons t) (map centroid_of boxes) {} t = (ids0, used, t1)"
    by (cases "spec_greedy (tracked_persons t) (map centroid_of boxes) {} t") auto
  note p = spec_greedy_props [OF g inv subset_refl]
  let ?S = "set (dict_keys (tracked_persons t)) - used"
  from update_greedy_aged [OF inv g] u
  have ids: "ids = ids0"
    and t': "t' = t1\<lparr>tracked_persons := aged (memory_frames t) ?S (tracked_persons t1)\<rparr>"
    by simp_all
  have inv1: "tracker_inv t1" using p by blast
  then have "distinct (map fst (tracked_persons t1))"
    by (simp add: tracker_inv_def dict_keys_def)
  then have "distinct (map fst (aged (memory_frames t) ?S (tracked_persons t1)))"
    by (rule distinct_keys_aged)
  moreover have "\<forall>k \<in> fst ` set (aged (memory_frames t) ?S (tracked_persons t1)). k < next_id t1"
  proof
    fix k assume "k \<in> fst ` set (aged (memory_frames t) ?S (tracked_persons t1))"
    with keys_aged_subset [of "memory_frames t" ?S "tracked_persons t1"]
    have "k \<in> set (dict_keys (tracked_persons t1))" by (auto simp: dict_keys_def)
    with inv1 show "k < next_id t1" unfolding tracker_inv_def by blast
  qed
  ultimately show "tracker_inv t'" by (simp add: t' tracker_inv_def dict_keys_def)
  show "next_id t \<le> next_id t'" using p by (simp add: t')
  show "filter (\<lambda>i. i \<notin> set (dict_keys (tracked_persons t))) ids = [next_id t .. next_id t' - 1]"
    using p by (simp add: t' ids dict_keys_def)
  show "length ids = length boxes" using p by (simp add: ids)
  show "memory_frames t' = memory_frames t" "max_distance t' = max_distance t"
    using p by (simp_all add: t')
qed

lemma update_total: "tracker_inv t \<Longrightarrow> \<exists>ids t'. update t boxes = Some (ids, t')"
proof -
  assume inv: "tracker_inv t"
  obtain ids0 used t1
    where g: "spec_greedy (tracked_persons t) (map centroid_of boxes) {} t = (ids0, used, t1)"
    by (cases "spec_greedy (tracked_persons t) (map centroid_of boxes) {} t") auto
  from update_greedy_aged [OF inv g] show ?thesis by blast
qed

lemma spec_nearest_Some:
  assumes "spec_nearest thr ex used c = Some k"
  shows "\<exists>tr. (k, tr) \<in> set ex \<and> k \<notin> used \<and> calculate_distance c (centroid tr) < thr
           \<and> (\<forall>kt \<in> set ex. fst kt \<notin> used \<and> calculate_distance c (centroid (snd kt)) < thr
                 \<longrightarrow> calculate_distance c (centroid tr) \<le> calculate_distance c (centroid (snd kt)))"
proof -
  let ?cs = "spec_candidates thr ex used c"
  let ?d = "\<lambda>kt. calculate_distance c (centroid (snd kt))"
  let ?am = "arg_min_list ?d ?cs"
  from assms have ne: "?cs \<noteq> []" and k: "k = fst ?am"
    by (auto simp: spec_nearest_def split: if_splits)
  from arg_min_list_in [OF ne, of ?d] have am: "?am \<in> set ?cs" .
  then have 1: "(k, snd ?am) \<in> set ex" "k \<notin> used" "?d ?am < thr"
    by (auto simp: spec_candidates_def k)
  have "?d ?am \<le> ?d kt" if "kt \<in> set ex" "fst kt \<notin> used" "?d kt < thr" for kt
  proof -
    from that have "kt \<in> set ?cs" by (simp add: spec_candidates_def)
    then have "Min (?d ` set ?cs) \<le> ?d kt" by (intro Min_le) auto
    with f_arg_min_list_f [OF ne, of ?d] show ?thesis by simp
  qed
  with 1 show ?thesis by (intro exI [of _ "snd ?am"]) auto
qed

lemma spec_nearest_None:
  "spec_nearest thr ex used c = None \<longleftrightarrow>
     (\<forall>kt \<in> set ex. fst kt \<in> used \<or> \<not> calculate_distance c (centroid (snd kt)) < thr)"
  by (auto simp: spec_nearest_def spec_candidates_def filter_empty_conv)

lemma spec_update_empty:
  "spec_update t [] =
     ([], t\<lparr>tracked_persons :=
              spec_expire (memory_frames t)
                (spec_age (set (dict_keys (tracked_persons t))) (tracked_persons t))\<rparr>)"
  by (simp add: spec_update_def)

lemma assigned_updates:
  assumes "tracker_inv t" and "\<forall>op \<in> set ops. is_update op"
  shows "\<exists>n. next_id t - 1 \<le> n \<and> assigned t ops = Some [next_id t .. n]"
  using assms
proof (induction ops arbitrary: t)
  case Nil
  have "[next_id t .. next_id t - 1] = []" by simp
  then show ?case by (intro exI [of _ "next_id t - 1"]) simp
next
  case (Cons op ops)
  from Cons.prems(2) obtain boxes where op: "op = Update boxes"
    by (cases op) auto
  from update_total [OF Cons.prems(1), of boxes]
  obtain ids t' where u: "update t boxes = Some (ids, t')" by blast
  note p = update_inv [OF Cons.prems(1) u]
  from Cons.prems(2) have "\<forall>op \<in> set ops. is_update op" by simp
  from Cons.IH [OF p(1) this]
  obtain n where n: "next_id t' - 1 \<le> n" and a: "assigned t' ops = Some [next_id t' .. n]"
    by blast
  have "[next_id t .. next_id t' - 1] @ [next_id t' .. n] = [next_id t .. n]"
  proof (cases "next_id t' \<le> n")
    case True
    with p(2) show ?thesis by (simp add: upto_split1)
  next
    case False
    with n have "n = next_id t' - 1" by simp
    then show ?thesis by simp
  qed
  with u a p(3) have "assigned t (op # ops) = Some [next_id t .. n]"
    by (simp add: op)
  moreover have "next_id t - 1 \<le> n" using n p(2) by simp
  ultimately show ?case by blast
qed

lemma tracker_inv_init: "tracker_inv (PersonTracker md mf)"
  by (simp add: tracker_inv_def PersonTracker_def dict_keys_def)

lemma tracker_inv_reset: "tracker_inv (reset t)"
  by (simp add: tracker_inv_def reset_def dict_keys_def)

lemmas tracker_eval_defs =
  update_def register_def reset_def PersonTracker_def dict_keys_def dict_get_def dict_del_def
  distance_less_iff distance_less_distance_iff Let_def

text \<open>
  C3. For a well-formed tracker with a memory window that is not negative, \<open>update\<close>
  returns (it raises no \<open>KeyError\<close>), and what it returns is the result of the greedy
  algorithm of the specification: one identity for each box, in the order of the boxes,
  each centroid in turn matched to the nearest track that existed at entry, is not yet used
  and is strictly nearer than the threshold (that track takes the centroid and a zero
  counter), or else registered as a new track; afterwards the counter of every unmatched
  existing track is incremented and every track whose counter exceeds the window is removed.
  For no boxes every counter is incremented, nothing is registered, the removal applies and
  the result is the empty list. The tracker after the call is well formed again. The
  nearest track is a candidate at the least distance among the candidates, and there is none
  exactly when there is no candidate.
\<close>

theorem C3_update_is_greedy:
  assumes "tracker_inv t" and "0 \<le> memory_frames t"
  shows "update t boxes = Some (spec_update t boxes)
    \<and> length (fst (spec_update t boxes)) = length boxes
    \<and> spec_update t [] =
        ([], t\<lparr>tracked_persons :=
                 spec_expire (memory_frames t)
                   (spec_age (set (dict_keys (tracked_persons t))) (tracked_persons t))\<rparr>)
    \<and> tracker_inv (snd (spec_update t boxes))
    \<and> memory_frames (snd (spec_update t boxes)) = memory_frames t
    \<and> (\<forall>thr ex used c k. spec_nearest thr ex used c = Some k \<longrightarrow>
          (\<exists>tr. (k, tr) \<in> set ex \<and> k \<notin> used \<and> calculate_distance c (centroid tr) < thr
             \<and> (\<forall>kt \<in> set ex.
                   fst kt \<notin> used \<and> calculate_distance c (centroid (snd kt)) < thr \<longrightarrow>
                   calculate_distance c (centroid tr)
                     \<le> calculate_distance c (centroid (snd kt)))))
    \<and> (\<forall>thr ex used c. spec_nearest thr ex used c = None \<longleftrightarrow>
          (\<forall>kt \<in> set ex.
             fst kt \<in> used \<or> \<not> calculate_distance c (centroid (snd kt)) < thr))"
proof -
  have u: "update t boxes = Some (spec_update t boxes)"
    using assms by (rule update_spec)
  then have u': "update t boxes = Some (fst (spec_update t boxes), snd (spec_update t boxes))"
    by simp
  note p = update_inv [OF assms(1) u']
  have e: "spec_update t [] =
        ([], t\<lparr>tracked_persons :=
                 spec_expire (memory_frames t)
                   (spec_age (set (dict_keys (tracked_persons t))) (tracked_persons t))\<rparr>)"
    by (rule spec_update_empty)
  have n1: "\<forall>thr ex used c k. spec_nearest thr ex used c = Some k \<longrightarrow>
          (\<exists>tr. (k, tr) \<in> set ex \<and> k \<notin> used \<and> calculate_distance c (centroid tr) < thr
             \<and> (\<forall>kt \<in> set ex.
                   fst kt \<notin> used \<and> calculate_distance c (centroid (snd kt)) < thr \<longrightarrow>
                   calculate_distance c (centroid tr)
                     \<le> calculate_distance c (centroid (snd kt))))"
    using spec_nearest_Some by blast
  have n2: "\<forall>thr ex used c. spec_nearest thr ex used c = None \<longleftrightarrow>
          (\<forall>kt \<in> set ex.
             fst kt \<in> used \<or> \<not> calculate_distance c (centroid (snd kt)) < thr)"
    using spec_nearest_None by blast
  from u p(4) e p(1) p(5) n1 n2 show ?thesis by (intro conjI)
qed

theorem C3_update_is_greedy_witness:
  "tracker_inv \<lparr>next_id = 3,
       tracked_persons = [(1, \<lparr>centroid = (5, 5), frames_missing = 0, logged = False\<rparr>),
                          (2, \<lparr>centroid = (15, 5), frames_missing = 30, logged = False\<rparr>)],
       max_distance = 50, memory_frames = 30\<rparr>
   \<and> spec_update \<lparr>next_id = 3,
       tracked_persons = [(1, \<lparr>centroid = (5, 5), frames_missing = 0, logged = False\<rparr>),
                          (2, \<lparr>centroid = (15, 5), frames_missing = 30, logged = False\<rparr>)],
       max_distance = 50, memory_frames = 30\<rparr>
       [(5, 0, 10, 10), (500, 500, 10, 10)]
     = ([1, 3],
        \<lparr>next_id = 4,
         tracked_persons = [(1, \<lparr>centroid = (10, 5), frames_missing = 0, logged = False\<rparr>),
                            (3, \<lparr>centroid = (505, 505), frames_missing = 0, logged = False\<rparr>)],
         max_distance = 50, memory_frames = 30\<rparr>)"
proof -
  let ?t = "\<lparr>next_id = 3,
       tracked_persons = [(1, \<lparr>centroid = (5, 5), frames_missing = 0, logged = False\<rparr>),
                          (2, \<lparr>centroid = (15, 5), frames_missing = 30, logged = False\<rparr>)],
       max_distance = 50, memory_frames = 30\<rparr>"
  have i: "tracker_inv ?t" by (simp add: tracker_inv_def dict_keys_def)
  have w: "0 \<le> memory_frames ?t" by simp
  have c: "update ?t [(5, 0, 10, 10), (500, 500, 10, 10)]
     = Some ([1, 3],
        \<lparr>next_id = 4,
         tracked_persons = [(1, \<lparr>centroid = (10, 5), frames_missing = 0, logged = False\<rparr>),
                            (3, \<lparr>centroid = (505, 505), frames_missing = 0, logged = False\<rparr>)],
         max_distance = 50, memory_frames = 30\<rparr>)"
    by (simp add: tracker_eval_defs)
  from C3_update_is_greedy [OF i w, of "[(5, 0, 10, 10), (500, 500, 10, 10)]"]
  have "update ?t [(5, 0, 10, 10), (500, 500, 10, 10)]
          = Some (spec_update ?t [(5, 0, 10, 10), (500, 500, 10, 10)])"
    by (rule conjunct1)
  with c i show ?thesis by simp
qed

text \<open>
  C2, as stated, fails: \<open>reset\<close> sets \<open>next_id\<close> back to 1, and \<open>start_detection\<close>
  calls it at every session start. A track registered before a reset and a track
  registered after it both get identity 1.
\<close>

theorem C2_reset_reuses_identities:
  "assigned (PersonTracker 50 30) [Update [(0, 0, 10, 10)], Reset, Update [(500, 500, 10, 10)]]
     = Some [1, 1]
   \<and> \<not> sorted_wrt (<) [1, 1 :: int]
   \<and> \<not> distinct [1, 1 :: int]"
  by (simp add: PersonTracker_def update_def register_def reset_def dict_keys_def)

text \<open>
  C2, amended. A new tracker is well formed, and \<open>reset\<close> leaves a well-formed tracker
  without tracks whose next identity is 1. Over every sequence of \<open>update\<close> calls without
  a reset, on a well-formed tracker, no call raises and the identities assigned to new
  tracks are the consecutive integers from the tracker's \<open>next_id\<close> on: they are strictly
  increasing, no identity is assigned twice, and none is an identity of an earlier track.
\<close>

theorem C2_identities_increase_between_resets:
  assumes "tracker_inv t" and "\<forall>op \<in> set ops. is_update op"
  shows "(\<exists>n ids. assigned t ops = Some ids \<and> ids = [next_id t .. n]
            \<and> sorted_wrt (<) ids \<and> distinct ids
            \<and> (\<forall>i \<in> set ids. next_id t \<le> i)
            \<and> (\<forall>i \<in> set ids. i \<notin> set (dict_keys (tracked_persons t))))
    \<and> tracker_inv (PersonTracker md mf)
    \<and> tracker_inv (reset t) \<and> next_id (reset t) = 1 \<and> tracked_persons (reset t) = []"
proof -
  from assigned_updates [OF assms]
  obtain n where a: "assigned t ops = Some [next_id t .. n]" by blast
  have "\<forall>i \<in> set [next_id t .. n]. i \<notin> set (dict_keys (tracked_persons t))"
    using assms(1) unfolding tracker_inv_def by fastforce
  with a have "\<exists>n ids. assigned t ops = Some ids \<and> ids = [next_id t .. n]
            \<and> sorted_wrt (<) ids \<and> distinct ids
            \<and> (\<forall>i \<in> set ids. next_id t \<le> i)
            \<and> (\<forall>i \<in> set ids. i \<notin> set (dict_keys (tracked_persons t)))"
    by (intro exI [of _ n] exI [of _ "[next_id t .. n]"]) simp
  moreover have "next_id (reset t) = 1" "tracked_persons (reset t) = []"
    by (simp_all add: reset_def)
  ultimately show ?thesis
    using tracker_inv_init [of md mf] tracker_inv_reset [of t] by (intro conjI)
qed

theorem C2_identities_increase_between_resets_witness:
  "tracker_inv (PersonTracker 50 30)
   \<and> is_update (Update [(0, 0, 10, 10)])
   \<and> is_update (Update [(0, 0, 10, 10), (500, 500, 10, 10)])
   \<and> assigned (PersonTracker 50 30)
        [Update [(0, 0, 10, 10)], Update [(0, 0, 10, 10), (500, 500, 10, 10)]] = Some [1, 2]
   \<and> sorted_wrt (<) [1, 2 :: int]"
proof -
  let ?ops = "[Update [(0, 0, 10, 10)], Update [(0, 0, 10, 10), (500, 500, 10, 10)]]"
  have c: "assigned (PersonTracker 50 30) ?ops = Some [1, 2]"
    by (simp add: tracker_eval_defs)
  have u: "\<forall>op \<in> set ?ops. is_update op" by simp
  have i: "tracker_inv (PersonTracker 50 30)"
    by (simp add: tracker_inv_def PersonTracker_def dict_keys_def)
  from C2_identities_increase_between_resets [THEN conjunct1, OF i u] c
  have "sorted_wrt (<) [1, 2 :: int]" by auto
  with i c show ?thesis by simp
qed

section \<open>Further properties\<close>

lemma distance_self: "calculate_distance c c = 0"
  by (simp add: calculate_distance_def)

lemma update_first:
  "update (PersonTracker md mf) [b] = Some ([1], one_track md mf (centroid_of b) 0)"
  by (simp add: update_def PersonTracker_def register_def one_track_def)

lemma update_stationary:
  "0 < md \<Longrightarrow> update (one_track md mf (centroid_of b) k) [b]
     = Some ([1], one_track md mf (centroid_of b) 0)"
  by (simp add: update_def one_track_def dict_keys_def dict_get_def Let_def distance_self)

lemma run_stationary:
  "0 < md \<Longrightarrow> run_updates (one_track md mf (centroid_of b) 0) (replicate n [b])
     = Some (replicate n [1], one_track md mf (centroid_of b) 0)"
  by (induction n) (simp_all add: update_stationary)

lemma update_missing:
  "update (one_track md mf c k) [] =
     Some ([], if k + 1 > mf
               then \<lparr>next_id = 2, tracked_persons = [], max_distance = md, memory_frames = mf\<rparr>
               else one_track md mf c (k + 1))"
  by (simp add: update_def one_track_def dict_keys_def dict_get_def dict_del_def Let_def)

lemma run_missing:
  "k + int j \<le> mf \<Longrightarrow>
     run_updates (one_track md mf c k) (replicate j [])
       = Some (replicate j [], one_track md mf c (k + int j))"
proof (induction j arbitrary: k)
  case 0
  then show ?case by simp
next
  case (Suc j)
  from Suc.prems have "k + 1 + int j \<le> mf" "\<not> k + 1 > mf" by simp_all
  with Suc.IH [of "k + 1"] show ?case
    by (simp add: update_missing add.assoc)
qed

lemma update_after_expiry:
  "update \<lparr>next_id = 2, tracked_persons = [], max_distance = md, memory_frames = mf\<rparr> [b]
     = Some ([2], \<lparr>next_id = 3,
                   tracked_persons = [(2, \<lparr>centroid = centroid_of b, frames_missing = 0,
                                          logged = False\<rparr>)],
                   max_distance = md, memory_frames = mf\<rparr>)"
  by (simp add: update_def register_def)

lemma run_updates_append:
  "run_updates t (xs @ ys) =
     (case run_updates t xs of
        None \<Rightarrow> None
      | Some (out, t') \<Rightarrow>
          (case run_updates t' ys of
             None \<Rightarrow> None
           | Some (out', t'') \<Rightarrow> Some (out @ out', t'')))"
  by (induction xs arbitrary: t) (auto split: option.splits)

lemma tracking_stability_l:
  assumes "0 < md"
  shows "run_updates (PersonTracker md mf) (replicate n [b]) =
           Some (replicate n [1],
                 if n = 0 then PersonTracker md mf else one_track md mf (centroid_of b) 0)"
proof (cases n)
  case 0
  then show ?thesis by simp
next
  case (Suc k)
  with run_stationary [OF assms, of mf b k] show ?thesis
    by (simp add: update_first)
qed

lemma tracking_expiry_l:
  assumes "0 \<le> mf"
  shows "run_updates (PersonTracker md mf) ([b] # replicate (nat mf + 1) [] @ [[b]]) =
           Some ([1] # replicate (nat mf + 1) [] @ [[2]],
                 \<lparr>next_id = 3,
                  tracked_persons = [(2, \<lparr>centroid = centroid_of b, frames_missing = 0,
                                         logged = False\<rparr>)],
                  max_distance = md, memory_frames = mf\<rparr>)"
proof -
  let ?c = "centroid_of b"
  have r: "[b] # replicate (nat mf + 1) [] @ [[b]] = [b] # (replicate (nat mf) [] @ [[], [b]])"
    by (simp add: replicate_append_same)
  have r': "[1] # replicate (nat mf + 1) [] @ [[2 :: int]]
              = [1] # (replicate (nat mf) [] @ [[], [2]])"
    by (simp add: replicate_append_same)
  have m: "run_updates (one_track md mf ?c 0) (replicate (nat mf) [])
             = Some (replicate (nat mf) [], one_track md mf ?c mf)"
    using run_missing [of 0 "nat mf" mf md ?c] assms by simp
  have "run_updates (one_track md mf ?c 0) (replicate (nat mf) [] @ [[], [b]])
          = Some (replicate (nat mf) [] @ [[], [2]],
                 \<lparr>next_id = 3,
                  tracked_persons = [(2, \<lparr>centroid = ?c, frames_missing = 0, logged = False\<rparr>)],
                  max_distance = md, memory_frames = mf\<rparr>)"
    by (simp add: run_updates_append m update_missing update_after_expiry)
  then show ?thesis
    unfolding r r' by (simp add: update_first)
qed

lemma tracking_within_window_l:
  assumes "0 \<le> mf" and "0 < md"
  shows "run_updates (PersonTracker md mf) ([b] # replicate (nat mf) [] @ [[b]]) =
           Some ([1] # replicate (nat mf) [] @ [[1]], one_track md mf (centroid_of b) 0)"
proof -
  let ?c = "centroid_of b"
  have m: "run_updates (one_track md mf ?c 0) (replicate (nat mf) [])
             = Some (replicate (nat mf) [], one_track md mf ?c mf)"
    using run_missing [of 0 "nat mf" mf md ?c] assms by simp
  show ?thesis
    by (simp add: update_first run_updates_append m update_stationary [OF assms(2)])
qed

lemma dict_get_set:
  "dict_get (dict_set d k v) k' = (if k' = k then Some v else dict_get d k')"
  by (induction d) (auto simp: dict_get_def)

lemma status_get_set:
  "status_get (dict_set st k True) k' = (if k' = k then True else status_get st k')"
  by (simp add: status_get_def dict_get_set)

lemma dict_set_idem: "dict_set (dict_set d k v) k v = dict_set d k v"
  by (induction d) auto

lemma ppe_inner_eq:
  "ppe_inner np pb item dets st = (if associated np dets pb item then dict_set st item True else st)"
proof (induction dets arbitrary: st)
  case Nil
  then show ?case by (simp add: associated_def)
next
  case (Cons d dets)
  then show ?case by (auto simp: associated_def dict_set_idem)
qed

lemma status_ppe_outer:
  "status_get (ppe_outer np pb items dets st) item =
     (if item \<in> set items \<and> item \<noteq> ''Person'' \<and> associated np dets pb item then True
      else status_get st item)"
proof (induction items arbitrary: st)
  case Nil
  then show ?case by simp
next
  case (Cons i items)
  define P :: string where "P = ''Person''"
  have step: "ppe_outer np pb (i # items) dets st =
      (if i = P then ppe_outer np pb items dets st
       else ppe_outer np pb items dets (if associated np dets pb i then dict_set st i True else st))"
    by (simp add: P_def ppe_inner_eq)
  have ih: "status_get (ppe_outer np pb items dets st') item =
      (if item \<in> set items \<and> item \<noteq> P \<and> associated np dets pb item then True
       else status_get st' item)" for st'
    unfolding P_def by (rule Cons.IH)
  let ?R = "\<lambda>its st'. if item \<in> set its \<and> item \<noteq> P \<and> associated np dets pb item then True
                      else status_get st' item"
  have "status_get (ppe_outer np pb (i # items) dets st) item = ?R (i # items) st"
  proof (cases "i = P")
    case True
    then have "status_get (ppe_outer np pb (i # items) dets st) item
                 = status_get (ppe_outer np pb items dets st) item"
      unfolding step by simp
    also have "\<dots> = ?R items st" by (rule ih)
    also have "\<dots> = ?R (i # items) st" using True by auto
    finally show ?thesis .
  next
    case False
    show ?thesis
    proof (cases "associated np dets pb i")
      case True
      with False have "status_get (ppe_outer np pb (i # items) dets st) item
                   = status_get (ppe_outer np pb items dets (dict_set st i True)) item"
        unfolding step by simp
      also have "\<dots> = ?R items (dict_set st i True)" by (rule ih)
      also have "\<dots> = ?R (i # items) st" using False True by (auto simp: status_get_set)
      finally show ?thesis .
    next
      case na: False
      with False have "status_get (ppe_outer np pb (i # items) dets st) item
                   = status_get (ppe_outer np pb items dets st) item"
        unfolding step by simp
      also have "\<dots> = ?R items st" by (rule ih)
      also have "\<dots> = ?R (i # items) st" using False na by auto
      finally show ?thesis .
    qed
  qed
  then show ?case unfolding P_def .
qed

lemma status_initial:
  "status_get [(''helmet'', False), (''vest'', False), (''gloves'', False),
               (''boots'', False), (''goggles'', False)] item = False"
  by (simp add: status_get_def dict_get_def)

lemma evaluated_status:
  "item \<in> set PPE_PROPER \<Longrightarrow>
     status_get (ppe_status (evaluate_person np m dets p)) item = associated np dets (bbox p) item"
  by (simp add: evaluate_person_def Let_def status_ppe_outer status_initial)
     (auto simp: PPE_PROPER_def)

lemma violation_outer_some_iff:
  "(\<exists>v. violation_outer np pb PPE_VIOLATIONS dets None = Some v)
     \<longleftrightarrow> (\<exists>v \<in> set PPE_VIOLATIONS. associated np dets pb v)"
proof -
  have ne: "[] \<notin> set PPE_VIOLATIONS" by (simp add: PPE_VIOLATIONS_def)
  show ?thesis
    unfolding violation_outer_find [OF ne]
    by (metis find_None_iff find_Some_D not_Some_eq)
qed

lemma missing_iff:
  "set items \<subseteq> set PPE_PROPER \<Longrightarrow>
   filter (\<lambda>ppe. \<not> status_get (ppe_outer np pb PPE_PROPER dets
       [(''helmet'', False), (''vest'', False), (''gloves'', False),
        (''boots'', False), (''goggles'', False)]) ppe) items \<noteq> []
     \<longleftrightarrow> (\<exists>item \<in> set items. \<not> associated np dets pb item)"
proof -
  assume s: "set items \<subseteq> set PPE_PROPER"
  have "status_get (ppe_outer np pb PPE_PROPER dets
       [(''helmet'', False), (''vest'', False), (''gloves'', False),
        (''boots'', False), (''goggles'', False)]) item = associated np dets pb item"
    if "item \<in> set items" for item
  proof -
    from that s have i: "item \<in> set PPE_PROPER" by auto
    then have "item \<noteq> ''Person''" by (auto simp: PPE_PROPER_def)
    with i show ?thesis by (simp add: status_ppe_outer status_initial)
  qed
  then show ?thesis by (auto simp: filter_empty_conv)
qed

lemma mode1_verdict_l:
  "has_violation (evaluate_person np 1 dets p) \<longleftrightarrow>
     (\<exists>v \<in> set PPE_VIOLATIONS. associated np dets (bbox p) v)
     \<or> (\<exists>item \<in> set PPE_PROPER. \<not> associated np dets (bbox p) item)"
proof -
  have ne: "[] \<notin> set PPE_VIOLATIONS" by (simp add: PPE_VIOLATIONS_def)
  note m = missing_iff [OF subset_refl, of np "bbox p" dets]
  show ?thesis
  proof (cases "find (associated np dets (bbox p)) PPE_VIOLATIONS")
    case None
    then have "\<not> (\<exists>v \<in> set PPE_VIOLATIONS. associated np dets (bbox p) v)"
      by (simp add: find_None_iff)
    with None m show ?thesis
      by (simp add: evaluate_person_def Let_def violation_outer_find [OF ne])
  next
    case (Some v)
    from find_Some_D [OF Some] have v: "v \<in> set PPE_VIOLATIONS" "associated np dets (bbox p) v"
      by simp_all
    with ne have "v \<noteq> []" by auto
    with Some v show ?thesis
      by (auto simp: evaluate_person_def Let_def violation_outer_find [OF ne])
  qed
qed

lemma mode2_verdict_l:
  assumes "m \<noteq> 1"
  shows "has_violation (evaluate_person np m dets p) \<longleftrightarrow>
     associated np dets (bbox p) ''no_helmet''
     \<or> \<not> associated np dets (bbox p) ''helmet'' \<or> \<not> associated np dets (bbox p) ''vest''"
proof -
  have ne: "[] \<notin> set PPE_VIOLATIONS" by (simp add: PPE_VIOLATIONS_def)
  have sub: "set REQUIRED_PPE \<subseteq> set PPE_PROPER" by (simp add: REQUIRED_PPE_def PPE_PROPER_def)
  have m: "filter (\<lambda>ppe. \<not> status_get (ppe_outer np (bbox p) PPE_PROPER dets
       [(''helmet'', False), (''vest'', False), (''gloves'', False),
        (''boots'', False), (''goggles'', False)]) ppe) REQUIRED_PPE \<noteq> []
     \<longleftrightarrow> \<not> associated np dets (bbox p) ''helmet'' \<or> \<not> associated np dets (bbox p) ''vest''"
    unfolding missing_iff [OF sub] by (simp add: REQUIRED_PPE_def)
  have req: "map (\<lambda>ppe. ''no_'' @ ppe) REQUIRED_PPE = [''no_helmet'', ''no_vest'']"
    by (simp add: REQUIRED_PPE_def)
  show ?thesis
  proof (cases "associated np dets (bbox p) ''no_helmet''")
    case True
    then have "find (associated np dets (bbox p)) PPE_VIOLATIONS = Some ''no_helmet''"
      by (simp add: PPE_VIOLATIONS_def)
    with True assms show ?thesis
      by (simp add: evaluate_person_def Let_def violation_outer_find [OF ne] req)
  next
    case False
    have "v \<notin> set [''no_helmet'', ''no_vest'']"
      if "find (associated np dets (bbox p)) PPE_VIOLATIONS = Some v" for v
    proof -
      from find_Some_D [OF that] False have "v \<in> set PPE_VIOLATIONS" "v \<noteq> ''no_helmet''"
        by auto
      then show ?thesis by (auto simp: PPE_VIOLATIONS_def)
    qed
    with False assms m show ?thesis
      by (cases "find (associated np dets (bbox p)) PPE_VIOLATIONS")
         (simp_all add: evaluate_person_def Let_def violation_outer_find [OF ne] req)
  qed
qed

lemma update_frame_without_persons_l:
  assumes "person_detections (frame_detections env) = []"
  shows "person_tracker (snd (update_frame s env)) = person_tracker s"
    and "logged_person_ids (snd (update_frame s env)) = logged_person_ids s"
    and "session_total_people (snd (update_frame s env)) = session_total_people s"
proof -
  have r: "frame_results s' env = []" for s'
    using assms by (simp add: frame_results_def check_violations_def)
  have t: "frame_tracking s' env = Some ([], person_tracker s')" for s'
    by (simp add: frame_tracking_def r assign_person_ids_def split: option.splits)
  show "person_tracker (snd (update_frame s env)) = person_tracker s"
    and "logged_person_ids (snd (update_frame s env)) = logged_person_ids s"
    and "session_total_people (snd (update_frame s env)) = session_total_people s"
    by (simp_all add: update_frame_def Let_def r t stop_detection_def update_daily_stats_def)
qed

text \<open>
  X1. Tracking stability: a box that does not move, fed to a new tracker with a positive
  distance threshold frame after frame, gets identity 1 in every frame.
\<close>

theorem X1_tracking_stability:
  assumes "0 < md"
  shows "run_updates (PersonTracker md mf) (replicate n [b]) =
           Some (replicate n [1],
                 if n = 0 then PersonTracker md mf else one_track md mf (centroid_of b) 0)"
  using assms by (rule tracking_stability_l)

theorem X1_tracking_stability_witness:
  "run_updates (PersonTracker 50 30) (replicate 3 [(0, 0, 10, 10)]) =
     Some ([[1], [1], [1]], one_track 50 30 (5, 5) 0)"
proof -
  have "(0 :: real) < 50" by simp
  from X1_tracking_stability [OF this, of 30 3 "(0, 0, 10, 10)"]
  show ?thesis by (simp add: numeral_3_eq_3)
qed

text \<open>
  X2. Tracking expiry: a track that is registered and then missing in more frames than the
  memory window is removed, and a box that appears again at the same place gets the new
  identity 2. After exactly as many missing frames as the window the track is still there,
  and the box gets identity 1 again.
\<close>

theorem X2_tracking_expiry:
  assumes "0 \<le> mf" and "0 < md"
  shows "run_updates (PersonTracker md mf) ([b] # replicate (nat mf + 1) [] @ [[b]]) =
           Some ([1] # replicate (nat mf + 1) [] @ [[2]],
                 \<lparr>next_id = 3,
                  tracked_persons = [(2, \<lparr>centroid = centroid_of b, frames_missing = 0,
                                         logged = False\<rparr>)],
                  max_distance = md, memory_frames = mf\<rparr>)
    \<and> run_updates (PersonTracker md mf) ([b] # replicate (nat mf) [] @ [[b]]) =
           Some ([1] # replicate (nat mf) [] @ [[1]], one_track md mf (centroid_of b) 0)"
  using tracking_expiry_l [OF assms(1)] tracking_within_window_l [OF assms] by (intro conjI)

theorem X2_tracking_expiry_witness:
  "run_updates (PersonTracker 50 1) [[(0, 0, 10, 10)], [], [], [(0, 0, 10, 10)]] =
     Some ([[1], [], [], [2]],
           \<lparr>next_id = 3,
            tracked_persons = [(2, \<lparr>centroid = (5, 5), frames_missing = 0, logged = False\<rparr>)],
            max_distance = 50, memory_frames = 1\<rparr>)
   \<and> run_updates (PersonTracker 50 1) [[(0, 0, 10, 10)], [], [(0, 0, 10, 10)]] =
     Some ([[1], [], [1]], one_track 50 1 (5, 5) 0)"
proof -
  have h: "(0 :: int) \<le> 1" "(0 :: real) < 50" by simp_all
  from X2_tracking_expiry [OF h, of "(0, 0, 10, 10)"]
  show ?thesis by (simp add: numeral_2_eq_2)
qed

text \<open>
  X3. The verdict of mode 1: a person is a violation exactly when a violation class is
  near the person or one of the five proper items is not.
\<close>

theorem X3_mode1_verdict:
  "has_violation (evaluate_person np 1 dets p) \<longleftrightarrow>
     (\<exists>v \<in> set PPE_VIOLATIONS. associated np dets (bbox p) v)
     \<or> (\<exists>item \<in> set PPE_PROPER. \<not> associated np dets (bbox p) item)"
  by (rule mode1_verdict_l)

theorem X3_mode1_verdict_witness:
  "has_violation (evaluate_person Nep50 1
     [\<lparr>class_name = ''Person'', confidence = 9 / 10, bbox = (0, 0, 100, 200)\<rparr>,
      \<lparr>class_name = ''helmet'', confidence = 8 / 10, bbox = (0, 0, 100, 100)\<rparr>]
     \<lparr>class_name = ''Person'', confidence = 9 / 10, bbox = (0, 0, 100, 200)\<rparr>)"
proof -
  let ?p = "\<lparr>class_name = ''Person'', confidence = 9 / 10, bbox = (0, 0, 100, 200)\<rparr>"
  let ?h = "\<lparr>class_name = ''helmet'', confidence = 8 / 10, bbox = (0, 0, 100, 100)\<rparr>"
  have "''vest'' \<in> set PPE_PROPER" "\<not> associated Nep50 [?p, ?h] (bbox ?p) ''vest''"
    by (simp_all add: PPE_PROPER_def associated_def)
  then have "\<exists>item \<in> set PPE_PROPER. \<not> associated Nep50 [?p, ?h] (bbox ?p) item" by blast
  with X3_mode1_verdict [of Nep50 "[?p, ?h]" ?p] show ?thesis by blast
qed

text \<open>
  X4. The verdict of mode 2 looks at the helmet and the vest only: a person is a violation
  exactly when a \<open>no_helmet\<close> detection is near the person or no helmet or no vest is;
  gloves, boots and goggles and the other violation classes do not matter.
\<close>

theorem X4_mode2_verdict:
  assumes "m \<noteq> 1"
  shows "has_violation (evaluate_person np m dets p) \<longleftrightarrow>
     associated np dets (bbox p) ''no_helmet''
     \<or> \<not> associated np dets (bbox p) ''helmet'' \<or> \<not> associated np dets (bbox p) ''vest''"
  using assms by (rule mode2_verdict_l)

theorem X4_mode2_verdict_witness:
  "\<not> has_violation (evaluate_person Nep50 2
     [\<lparr>class_name = ''Person'', confidence = 9 / 10, bbox = (0, 0, 100, 200)\<rparr>,
      \<lparr>class_name = ''helmet'', confidence = 8 / 10, bbox = (0, 0, 100, 100)\<rparr>,
      \<lparr>class_name = ''vest'', confidence = 8 / 10, bbox = (0, 50, 100, 150)\<rparr>,
      \<lparr>class_name = ''no_gloves'', confidence = 8 / 10, bbox = (0, 50, 100, 150)\<rparr>]
     \<lparr>class_name = ''Person'', confidence = 9 / 10, bbox = (0, 0, 100, 200)\<rparr>)"
proof -
  let ?p = "\<lparr>class_name = ''Person'', confidence = 9 / 10, bbox = (0, 0, 100, 200)\<rparr>"
  let ?ds = "[?p,
      \<lparr>class_name = ''helmet'', confidence = 8 / 10, bbox = (0, 0, 100, 100)\<rparr>,
      \<lparr>class_name = ''vest'', confidence = 8 / 10, bbox = (0, 50, 100, 150)\<rparr>,
      \<lparr>class_name = ''no_gloves'', confidence = 8 / 10, bbox = (0, 50, 100, 150)\<rparr>]"
  have n1: "check_proximity Nep50 (0, 0, 100, 200) (0, 0, 100, 100) default_threshold"
    by (rule check_proximity_rounded(1)) (simp_all add: pixel_sized_def)
  have n2: "check_proximity Nep50 (0, 0, 100, 200) (0, 50, 100, 150) default_threshold"
    by (rule check_proximity_rounded(1)) (simp_all add: pixel_sized_def)
  have a: "\<not> associated Nep50 ?ds (bbox ?p) ''no_helmet''" "associated Nep50 ?ds (bbox ?p) ''helmet''"
    "associated Nep50 ?ds (bbox ?p) ''vest''"
    by (simp_all add: associated_def n1 n2)
  have "(2 :: int) \<noteq> 1" by simp
  from X4_mode2_verdict [OF this, of Nep50 ?ds ?p] a show ?thesis by blast
qed

text \<open>
  X5. A frame without a person detection leaves the tracker untouched: \<open>update_frame\<close>
  does not call \<open>update\<close> for it, so the missing counters of the tracks do not advance
  on such frames, and the ledger stays as it is.
\<close>

theorem X5_no_person_no_tracking:
  assumes "person_detections (frame_detections env) = []"
  shows "person_tracker (snd (update_frame s env)) = person_tracker s
    \<and> logged_person_ids (snd (update_frame s env)) = logged_person_ids s
    \<and> session_total_people (snd (update_frame s env)) = session_total_people s"
  using update_frame_without_persons_l [OF assms] by (intro conjI)

theorem X5_no_person_no_tracking_witness:
  "person_tracker (snd (update_frame
      (snd (update_frame (start_detection (PPEDetectionApp empty_database True True) True)
              (frame_of bare_person False 0)))
      (frame_of [] False 1)))
   = Some (one_track 50 30 (50, 100) 0)"
proof -
  let ?s1 = "snd (update_frame (start_detection (PPEDetectionApp empty_database True True) True)
              (frame_of bare_person False 0))"
  have e: "person_tracker ?s1 = Some (one_track 50 30 (50, 100) 0)"
    by (simp add: run_defs eval_defs one_track_def)
  have "person_detections (frame_detections (frame_of [] False 1)) = []"
    by (simp add: person_detections_def frame_of_def)
  from X5_no_person_no_tracking [OF this, of ?s1] e show ?thesis by simp
qed

end
